theory Spec2Isabelle
  imports Complex_Main "HOL-Library.Multiset"
begin

section \<open>JavaScript values used by the orchestrator\<close>

text \<open>
  A JavaScript value that is a string or \<open>undefined\<close> is a \<open>string option\<close>. The
  operator \<open>v || d\<close> yields the default for the falsy values \<open>undefined\<close> and \<open>''\<close>.
\<close>

definition truthy :: "string option \<Rightarrow> bool" where
  "truthy v = (case v of None \<Rightarrow> False | Some s \<Rightarrow> s \<noteq> [])"

definition js_or :: "string option \<Rightarrow> string \<Rightarrow> string" where
  "js_or v d = (case v of None \<Rightarrow> d | Some s \<Rightarrow> if s = [] then d else s)"

text \<open>
  \<open>String.prototype.toUpperCase\<close> on the letters a..z; every other character of the
  8-bit alphabet is kept. The orchestrator only compares the result with \<open>RUN\<close>, which
  is decided by these letters.
\<close>

definition upper_char :: "char \<Rightarrow> char" where
  "upper_char c =
     (case map_of (zip ''abcdefghijklmnopqrstuvwxyz'' ''ABCDEFGHIJKLMNOPQRSTUVWXYZ'') c of
        Some u \<Rightarrow> u
      | None \<Rightarrow> c)"

definition toUpperCase :: "string \<Rightarrow> string" where
  "toUpperCase s = map upper_char s"

text \<open>\<open>String.prototype.includes\<close>: the pattern occurs as a contiguous substring.\<close>

fun startsWith :: "string \<Rightarrow> string \<Rightarrow> bool" where
  "startsWith s [] = True"
| "startsWith [] (p # ps) = False"
| "startsWith (c # cs) (p # ps) = (c = p \<and> startsWith cs ps)"

fun str_includes :: "string \<Rightarrow> string \<Rightarrow> bool" where
  "str_includes [] pat = (pat = [])"
| "str_includes (c # cs) pat = (startsWith (c # cs) pat \<or> str_includes cs pat)"

section \<open>Configuration (src/config/config.js)\<close>

definition circuitBreakerThreshold :: int where
  "circuitBreakerThreshold = 5"

definition retryDelay :: int where
  "retryDelay = 5 * 60 * 1000"

definition cycleWait :: int where
  "cycleWait = 30 * 60 * 1000"

definition activitiesPerCycle :: int where
  "activitiesPerCycle = 10"

section \<open>Kill switch (GoogleSheetsManager.getKillSwitchStatus, main.js checkKillSwitch)\<close>

text \<open>
  What a read of the Control sheet can give: the read throws, the sheet does not exist
  (it is then created with the value RUN), or the sheet has rows, of which the first
  row's \<open>Kill Switch\<close> cell is used.
\<close>

datatype control_sheet =
    ReadFails
  | NoControlSheet
  | ControlRows "string option list"

definition getKillSwitchStatus :: "control_sheet \<Rightarrow> string" where
  "getKillSwitchStatus cs =
     (case cs of
        ReadFails \<Rightarrow> ''RUN''
      | NoControlSheet \<Rightarrow> ''RUN''
      | ControlRows rows \<Rightarrow>
          (case rows of
             [] \<Rightarrow> ''RUN''
           | r # _ \<Rightarrow> toUpperCase (js_or r ''RUN'')))"

text \<open>\<open>return status.toUpperCase() !== 'RUN'\<close>: true means the system should stop.\<close>

definition checkKillSwitch :: "control_sheet \<Rightarrow> bool" where
  "checkKillSwitch cs = (toUpperCase (getKillSwitchStatus cs) \<noteq> ''RUN'')"

section \<open>The automation loop (main.js runAutomationLoop)\<close>

text \<open>
  The environment of one cycle: what each kill-switch read returns and whether each
  phase returns or throws. What is thrown is an \<open>Error\<close>, of which the loop reads the
  message. The phases themselves are modelled further below; here only their outcome
  matters.
\<close>

datatype phase_outcome = PhaseDone | PhaseThrows string

record cycle_env =
  kill1 :: control_sheet
  scraping :: phase_outcome
  kill2 :: control_sheet
  filtering :: phase_outcome
  kill3 :: control_sheet
  engagement :: phase_outcome

datatype event =
    CycleStarted nat
  | PhaseRan string
  | Slept int
  | ShutDown

datatype try_result = Broke | Completed | Threw string

record sys =
  errorCount :: int
  maxErrors :: int
  isShuttingDown :: bool

definition initial_sys :: sys where
  "initial_sys = \<lparr>errorCount = 0, maxErrors = circuitBreakerThreshold, isShuttingDown = False\<rparr>"

text \<open>
  \<open>runPhase\<close>: check the kill switch; when it says stop, return true without running
  the phase; otherwise run the phase (which may throw) and return false.
\<close>

definition runPhase :: "control_sheet \<Rightarrow> phase_outcome \<Rightarrow> string \<Rightarrow> event list \<times> (string + bool)" where
  "runPhase ks ph name =
     (if checkKillSwitch ks then ([], Inr True)
      else (case ph of
              PhaseDone \<Rightarrow> ([PhaseRan name], Inr False)
            | PhaseThrows m \<Rightarrow> ([PhaseRan name], Inl m)))"

text \<open>The body of the \<open>try\<close> block up to the three \<open>if (...) break\<close> lines.\<close>

definition try_block :: "cycle_env \<Rightarrow> event list \<times> try_result" where
  "try_block c =
     (case runPhase (kill1 c) (scraping c) ''scraping'' of
        (e1, Inl m) \<Rightarrow> (e1, Threw m)
      | (e1, Inr True) \<Rightarrow> (e1, Broke)
      | (e1, Inr False) \<Rightarrow>
          (case runPhase (kill2 c) (filtering c) ''filtering'' of
             (e2, Inl m) \<Rightarrow> (e1 @ e2, Threw m)
           | (e2, Inr True) \<Rightarrow> (e1 @ e2, Broke)
           | (e2, Inr False) \<Rightarrow>
               (case runPhase (kill3 c) (engagement c) ''engagement'' of
                  (e3, Inl m) \<Rightarrow> (e1 @ e2 @ e3, Threw m)
                | (e3, Inr True) \<Rightarrow> (e1 @ e2 @ e3, Broke)
                | (e3, Inr False) \<Rightarrow> (e1 @ e2 @ e3, Completed))))"

text \<open>
  \<open>shutdown\<close> sets the flag once and closes the bot and the sheet connection; the
  closing is the event \<open>ShutDown\<close>.
\<close>

definition shutdown :: "sys \<Rightarrow> sys \<times> event list" where
  "shutdown s = (if isShuttingDown s then (s, []) else (s\<lparr>isShuttingDown := True\<rparr>, [ShutDown]))"

definition critical :: "string \<Rightarrow> bool" where
  "critical m = (str_includes m ''permission'' \<or> str_includes m ''403'')"

text \<open>
  One iteration of the \<open>while\<close> loop: the new state, the events, and whether the loop
  goes on (\<open>True\<close>) or was left by \<open>break\<close> (\<open>False\<close>).
\<close>

definition loop_iter :: "sys \<Rightarrow> nat \<Rightarrow> cycle_env \<Rightarrow> sys \<times> event list \<times> bool" where
  "loop_iter s n c =
     (case try_block c of
        (ev, Broke) \<Rightarrow> (s, CycleStarted n # ev, False)
      | (ev, Completed) \<Rightarrow>
          (s\<lparr>errorCount := 0\<rparr>, CycleStarted n # ev @ [Slept cycleWait], True)
      | (ev, Threw m) \<Rightarrow>
          (let s1 = s\<lparr>errorCount := errorCount s + 1\<rparr> in
           if critical m then
             (fst (shutdown s1), CycleStarted n # ev @ snd (shutdown s1), False)
           else if errorCount s1 \<ge> maxErrors s1 then
             (fst (shutdown s1), CycleStarted n # ev @ snd (shutdown s1), False)
           else (s1, CycleStarted n # ev @ [Slept retryDelay], True)))"

text \<open>
  The loop over the cycles the environment offers. \<open>returned\<close> is false when the
  environment's list ran out while the loop was still running.
\<close>

record loop_result =
  final :: sys
  cycleCount :: nat
  trace :: "event list"
  returned :: bool

fun runAutomationLoop :: "sys \<Rightarrow> nat \<Rightarrow> cycle_env list \<Rightarrow> loop_result" where
  "runAutomationLoop s n [] =
     \<lparr>final = s, cycleCount = n, trace = [], returned = isShuttingDown s\<rparr>"
| "runAutomationLoop s n (c # cs) =
     (if isShuttingDown s then \<lparr>final = s, cycleCount = n, trace = [], returned = True\<rparr>
      else (case loop_iter s (Suc n) c of
              (s', ev, False) \<Rightarrow> \<lparr>final = s', cycleCount = Suc n, trace = ev, returned = True\<rparr>
            | (s', ev, True) \<Rightarrow>
                (let r = runAutomationLoop s' (Suc n) cs in r\<lparr>trace := ev @ trace r\<rparr>)))"

section \<open>The store adapter (GoogleSheetsManager.js)\<close>

text \<open>
  A row of the Leads sheet, with the columns the orchestrator reads back, and the row
  number the sheet gives it (the header is row 1). The other columns (timestamp, profile
  URL, follower count, keyword, verified flag, dates) are written once and never read by
  the functions below.
\<close>

record row =
  rowNumber :: nat
  r_username :: "string option"
  r_bio :: "string option"
  r_filterStatus :: "string option"
  r_filterReason :: "string option"
  r_dmStatus :: "string option"
  r_lastError :: "string option"

text \<open>A lead as a scraper returns it.\<close>

record scraped_lead =
  sl_username :: "string option"
  sl_bio :: "string option"

text \<open>An exception is an \<open>Error\<close> with its message; a network read returns or throws.\<close>

datatype error = Error string

datatype 'a fetched = Throws string | Fetched 'a

text \<open>
  The environment of one \<open>appendLeads\<close> call: whether the k-th \<open>addRow\<close> throws, and
  what the i-th verification read returns, given the rows the sheet really holds (an
  eventually consistent store may show fewer, or fail).
\<close>

record store_env =
  addRow_throws :: "nat \<Rightarrow> string option"
  view :: "nat \<Rightarrow> row list \<Rightarrow> row list fetched"

definition substring0 :: "nat \<Rightarrow> string \<Rightarrow> string" where
  "substring0 n s = take n s"

definition new_row :: "row list \<Rightarrow> scraped_lead \<Rightarrow> row" where
  "new_row rows l =
     \<lparr>rowNumber = length rows + 2,
      r_username = Some (js_or (sl_username l) []),
      r_bio = Some (substring0 500 (js_or (sl_bio l) [])),
      r_filterStatus = Some ''PENDING'',
      r_filterReason = Some [],
      r_dmStatus = Some ''NOT_SENT'',
      r_lastError = Some []\<rparr>"

text \<open>
  The \<open>for (const lead of leads)\<close> loop: one \<open>addRow\<close> per lead; a throwing
  \<open>addRow\<close> is rethrown by \<open>handleConnectionError\<close> and ends the call.
\<close>

fun add_rows :: "(nat \<Rightarrow> string option) \<Rightarrow> row list \<Rightarrow> scraped_lead list \<Rightarrow> nat \<Rightarrow> error option \<times> row list" where
  "add_rows thr rows [] k = (None, rows)"
| "add_rows thr rows (l # ls) k =
     (case thr k of
        Some m \<Rightarrow> (Some (Error m), rows)
      | None \<Rightarrow> add_rows thr (rows @ [new_row rows l]) ls (Suc k))"

definition maxRetries :: nat where
  "maxRetries = 3"

definition unverifiedLeads :: "row list \<Rightarrow> scraped_lead list \<Rightarrow> scraped_lead list" where
  "unverifiedLeads currentRows leads =
     filter (\<lambda>l. sl_username l \<notin> set (map r_username currentRows)) leads"

text \<open>
  The verification loop \<open>for (let i = 0; i < maxRetries; i++)\<close>, with \<open>k\<close> the
  iterations left: wait \<open>7000 * (i + 1)\<close> ms, re-read, stop at the first read that shows
  every lead; a read that throws is caught and the loop goes on. The result is
  \<open>allVerified\<close> and the delays waited.
\<close>

fun verify_loop :: "(nat \<Rightarrow> row list fetched) \<Rightarrow> scraped_lead list \<Rightarrow> nat \<Rightarrow> nat \<Rightarrow> bool \<times> int list" where
  "verify_loop reads leads i 0 = (False, [])"
| "verify_loop reads leads i (Suc k) =
     (let delay = 7000 * (int i + 1) in
      case reads i of
        Throws m \<Rightarrow>
          (case verify_loop reads leads (Suc i) k of (ok, ds) \<Rightarrow> (ok, delay # ds))
      | Fetched currentRows \<Rightarrow>
          if unverifiedLeads currentRows leads = [] then (True, [delay])
          else (case verify_loop reads leads (Suc i) k of (ok, ds) \<Rightarrow> (ok, delay # ds)))"

definition verification_failed :: error where
  "verification_failed = Error ''Post-write content verification failed.''"

text \<open>\<open>appendLeads\<close>: the outcome, the rows of the sheet afterwards, the delays waited.\<close>

definition appendLeads :: "store_env \<Rightarrow> row list \<Rightarrow> scraped_lead list \<Rightarrow> (error + unit) \<times> row list \<times> int list" where
  "appendLeads env rows leads =
     (if leads = [] then (Inr (), rows, [])
      else (case add_rows (addRow_throws env) rows leads 0 of
              (Some e, rows') \<Rightarrow> (Inl e, rows', [])
            | (None, rows') \<Rightarrow>
                (case verify_loop (\<lambda>i. view env i rows') leads 0 maxRetries of
                   (True, ds) \<Rightarrow> (Inr (), rows', ds)
                 | (False, ds) \<Rightarrow> (Inl verification_failed, rows', ds))))"

text \<open>
  \<open>getAllUsernames\<close>: the truthy Username cells of the rows read; the empty set when
  the read throws.
\<close>

definition getAllUsernames :: "row list fetched \<Rightarrow> string option list" where
  "getAllUsernames rd =
     (case rd of
        Throws m \<Rightarrow> []
      | Fetched rows \<Rightarrow> filter truthy (map r_username rows))"

text \<open>
  \<open>batchUpdateLeadStatuses\<close>. The rows read are objects held in a map by row number;
  every update whose row exists sets the two cells of that object and queues the object;
  then the queued objects are saved one by one. \<open>pending\<close> holds what each object carries
  when it is saved (two updates of one row share the object).
\<close>

record update =
  u_rowNumber :: nat
  u_status :: string
  u_reason :: string

fun queue_updates :: "row list \<Rightarrow> update list \<Rightarrow> (nat \<rightharpoonup> string \<times> string) \<Rightarrow> (nat \<rightharpoonup> string \<times> string) \<times> nat list" where
  "queue_updates rows [] pending = (pending, [])"
| "queue_updates rows (u # us) pending =
     (if u_rowNumber u \<in> set (map rowNumber rows) then
        (case queue_updates rows us (pending(u_rowNumber u \<mapsto> (u_status u, u_reason u))) of
           (p, q) \<Rightarrow> (p, u_rowNumber u # q))
      else queue_updates rows us pending)"

definition save_row :: "(nat \<rightharpoonup> string \<times> string) \<Rightarrow> nat \<Rightarrow> row list \<Rightarrow> row list" where
  "save_row pending rn store =
     (case pending rn of
        None \<Rightarrow> store
      | Some (st, re) \<Rightarrow>
          map (\<lambda>r. if rowNumber r = rn
                    then r\<lparr>r_filterStatus := Some st, r_filterReason := Some re\<rparr> else r) store)"

text \<open>
  The \<open>for (const row of rowsToUpdate) await row.save()\<close> loop; \<open>thr k\<close> tells whether
  the k-th \<open>save\<close> throws. The result is the exception (if any), the sheet afterwards and
  the row numbers whose \<open>save\<close> was called.
\<close>

fun save_all :: "(nat \<Rightarrow> string option) \<Rightarrow> (nat \<rightharpoonup> string \<times> string) \<Rightarrow> row list \<Rightarrow> nat list \<Rightarrow> nat \<Rightarrow> error option \<times> row list \<times> nat list" where
  "save_all thr pending store [] k = (None, store, [])"
| "save_all thr pending store (rn # rns) k =
     (case thr k of
        Some m \<Rightarrow> (Some (Error m), store, [rn])
      | None \<Rightarrow>
          (case save_all thr pending (save_row pending rn store) rns (Suc k) of
             (e, st, att) \<Rightarrow> (e, st, rn # att)))"

text \<open>
  The whole call: nothing to do for an empty batch; a throwing read or \<open>save\<close> is logged
  and rethrown (\<open>throw error\<close> in the \<open>catch\<close>).
\<close>

definition batchUpdateLeadStatuses :: "(nat \<Rightarrow> string option) \<Rightarrow> row list fetched \<Rightarrow> row list \<Rightarrow> update list \<Rightarrow> (error + unit) \<times> row list \<times> nat list" where
  "batchUpdateLeadStatuses thr rd store updates =
     (if updates = [] then (Inr (), store, [])
      else (case rd of
              Throws m \<Rightarrow> (Inl (Error m), store, [])
            | Fetched rows \<Rightarrow>
                (case queue_updates rows updates Map.empty of
                   (pending, rowsToUpdate) \<Rightarrow>
                     (case save_all thr pending store rowsToUpdate 0 of
                        (Some e, st, att) \<Rightarrow> (Inl e, st, att)
                      | (None, st, att) \<Rightarrow> (Inr (), st, att)))))"

text \<open>
  \<open>markDMSent\<close> and \<open>logError\<close> look the row up by \<open>row.rowNumber === leadId\<close>; an
  \<open>undefined\<close> id matches no row. A throwing read is caught and changes nothing.
\<close>

definition markDMSent :: "nat option \<Rightarrow> row list fetched \<Rightarrow> row list \<Rightarrow> row list" where
  "markDMSent leadId rd store =
     (case (leadId, rd) of
        (Some i, Fetched rows) \<Rightarrow>
          (if i \<in> set (map rowNumber rows)
           then map (\<lambda>r. if rowNumber r = i then r\<lparr>r_dmStatus := Some ''SENT''\<rparr> else r) store
           else store)
      | _ \<Rightarrow> store)"

definition logError :: "nat option \<Rightarrow> string \<Rightarrow> row list fetched \<Rightarrow> row list \<Rightarrow> row list" where
  "logError leadId errorMessage rd store =
     (case (leadId, rd) of
        (Some i, Fetched rows) \<Rightarrow>
          (if i \<in> set (map rowNumber rows)
           then map (\<lambda>r. if rowNumber r = i
                          then r\<lparr>r_lastError := Some (substring0 500 errorMessage)\<rparr> else r) store
           else store)
      | _ \<Rightarrow> store)"

text \<open>A lead ready for engagement, as \<open>getLeadsForEngagement\<close> builds it from a row.\<close>

record lead =
  l_id :: nat
  l_username :: string
  l_bio :: string

definition getLeadsForEngagement :: "row list fetched \<Rightarrow> lead list" where
  "getLeadsForEngagement rd =
     (case rd of
        Throws m \<Rightarrow> []
      | Fetched rows \<Rightarrow>
          map (\<lambda>r. \<lparr>l_id = rowNumber r, l_username = js_or (r_username r) [],
                     l_bio = js_or (r_bio r) []\<rparr>)
            (filter (\<lambda>r. toUpperCase (js_or (r_filterStatus r) []) = ''PASS'' \<and>
                          toUpperCase (js_or (r_dmStatus r) []) = ''NOT_SENT'') rows))"

section \<open>The engagement scheduler (EngagementScheduler)\<close>

record rateLimits =
  dmPerDay :: int
  likesPerDay :: int
  retweetsPerDay :: int
  commentsPerDay :: int
  actionsPerHour :: int

record dailyCounters =
  c_dm :: int
  c_likes :: int
  c_retweets :: int
  c_comments :: int
  lastReset :: string

record scheduler =
  limits :: rateLimits
  counters :: dailyCounters

text \<open>
  The \<open>rateLimits\<close> object of a configuration, a key being absent or present. The
  constructor gives an absent key its default; the spread \<open>...config.rateLimits\<close> gives
  a present key its configured value.
\<close>

record rateLimits_config =
  cfg_dmPerDay :: "int option"
  cfg_likesPerDay :: "int option"
  cfg_retweetsPerDay :: "int option"
  cfg_commentsPerDay :: "int option"
  cfg_actionsPerHour :: "int option"

definition or_default :: "int option \<Rightarrow> int \<Rightarrow> int" where
  "or_default v d = (case v of None \<Rightarrow> d | Some x \<Rightarrow> x)"

definition new_scheduler :: "rateLimits_config \<Rightarrow> string \<Rightarrow> scheduler" where
  "new_scheduler cfg today =
     \<lparr>limits =
        \<lparr>dmPerDay = or_default (cfg_dmPerDay cfg) 30,
         likesPerDay = or_default (cfg_likesPerDay cfg) 100,
         retweetsPerDay = or_default (cfg_retweetsPerDay cfg) 50,
         commentsPerDay = or_default (cfg_commentsPerDay cfg) 20,
         actionsPerHour = or_default (cfg_actionsPerHour cfg) 15\<rparr>,
      counters = \<lparr>c_dm = 0, c_likes = 0, c_retweets = 0, c_comments = 0, lastReset = today\<rparr>\<rparr>"

text \<open>The \<open>rateLimits\<close> of src/config/config.js.\<close>

definition config_rateLimits :: rateLimits_config where
  "config_rateLimits =
     \<lparr>cfg_dmPerDay = Some 30, cfg_likesPerDay = Some 100, cfg_retweetsPerDay = Some 50,
      cfg_commentsPerDay = Some 20, cfg_actionsPerHour = Some 15\<rparr>"

text \<open>
  A planned activity. \<open>type\<close> is the JavaScript string (\<open>dm\<close>, \<open>like\<close>, \<open>retweet\<close>,
  \<open>comment\<close>); the fields an activity of some kind does not have are \<open>undefined\<close>. The
  scheduled time is the instant of the ISO string, in milliseconds.
\<close>

record activity =
  a_type :: string
  a_leadId :: nat
  a_username :: string
  a_message :: "string option"
  a_postUrl :: "string option"
  a_comment :: "string option"
  a_scheduledTime :: int
  a_priority :: int

text \<open>
  What planning takes from outside: the date string of today, the successive values of
  \<open>Math.random()\<close> (doubles in [0, 1), which are rationals), and what is made of one
  such value by \<open>getRandomTimeToday\<close> (an instant, which depends on the clock),
  \<open>generatePersonalizedMessage\<close> (a message for a lead) and \<open>getRandomComment\<close> (a
  comment template, \<open>undefined\<close> when there is none). Message and comment texts are
  opaque to the scheduler.
\<close>

record plan_env =
  today :: string
  random :: "nat \<Rightarrow> rat"
  timeFor :: "rat \<Rightarrow> int"
  messageFor :: "rat \<Rightarrow> lead \<Rightarrow> string"
  commentFor :: "rat \<Rightarrow> string option"

definition resetDailyCountersIfNeeded :: "string \<Rightarrow> scheduler \<Rightarrow> scheduler" where
  "resetDailyCountersIfNeeded td sch =
     (if lastReset (counters sch) \<noteq> td
      then sch\<lparr>counters := \<lparr>c_dm = 0, c_likes = 0, c_retweets = 0, c_comments = 0, lastReset = td\<rparr>\<rparr>
      else sch)"

text \<open>
  The first loop of \<open>createDailyPlan\<close>: direct messages, in the order of the leads,
  until \<open>dmCount\<close> reaches the remaining quota. \<open>pos\<close> counts the random values used.
\<close>

fun dm_loop :: "plan_env \<Rightarrow> int \<Rightarrow> int \<Rightarrow> nat \<Rightarrow> lead list \<Rightarrow> activity list \<times> int \<times> nat" where
  "dm_loop env remainingDMs dmCount pos [] = ([], dmCount, pos)"
| "dm_loop env remainingDMs dmCount pos (l # ls) =
     (if dmCount \<ge> remainingDMs then ([], dmCount, pos)
      else if l_username l = [] then dm_loop env remainingDMs dmCount pos ls
      else (case dm_loop env remainingDMs (dmCount + 1) (pos + 2) ls of
              (acts, dmCount', pos') \<Rightarrow>
                (\<lparr>a_type = ''dm'', a_leadId = l_id l, a_username = l_username l,
                  a_message = Some (messageFor env (random env pos) l),
                  a_postUrl = None, a_comment = None,
                  a_scheduledTime = timeFor env (random env (pos + 1)),
                  a_priority = 1\<rparr> # acts, dmCount', pos')))"

text \<open>The doubles written \<open>0.3\<close> and \<open>0.2\<close>.\<close>

definition retweet_chance :: rat where
  "retweet_chance = 5404319552844595 / 18014398509481984"

definition comment_chance :: rat where
  "comment_chance = 3602879701896397 / 18014398509481984"

definition postUrlOf :: "lead \<Rightarrow> string" where
  "postUrlOf l = ''https://twitter.com/'' @ l_username l"

text \<open>
  The second loop, one lead at a time: a like while the like quota and twice the number
  of leads allow; a retweet and a comment when the quota allows and the random value is
  below the chance (the value is drawn only when the quota allows).
\<close>

record engage_counts =
  likeCount :: int
  retweetCount :: int
  commentCount :: int

definition like_step :: "plan_env \<Rightarrow> int \<Rightarrow> int \<Rightarrow> lead \<Rightarrow> engage_counts \<times> nat \<Rightarrow> activity list \<times> engage_counts \<times> nat" where
  "like_step env remainingLikes nLeads l st =
     (case st of (cnt, pos) \<Rightarrow>
        if likeCount cnt < remainingLikes \<and> likeCount cnt < nLeads * 2 then
          ([\<lparr>a_type = ''like'', a_leadId = l_id l, a_username = l_username l,
             a_message = None, a_postUrl = Some (postUrlOf l), a_comment = None,
             a_scheduledTime = timeFor env (random env pos), a_priority = 3\<rparr>],
           cnt\<lparr>likeCount := likeCount cnt + 1\<rparr>, pos + 1)
        else ([], cnt, pos))"

definition retweet_step :: "plan_env \<Rightarrow> int \<Rightarrow> lead \<Rightarrow> engage_counts \<times> nat \<Rightarrow> activity list \<times> engage_counts \<times> nat" where
  "retweet_step env remainingRetweets l st =
     (case st of (cnt, pos) \<Rightarrow>
        if retweetCount cnt < remainingRetweets then
          (if random env pos < retweet_chance then
             ([\<lparr>a_type = ''retweet'', a_leadId = l_id l, a_username = l_username l,
                a_message = None, a_postUrl = Some (postUrlOf l), a_comment = None,
                a_scheduledTime = timeFor env (random env (pos + 1)), a_priority = 2\<rparr>],
              cnt\<lparr>retweetCount := retweetCount cnt + 1\<rparr>, pos + 2)
           else ([], cnt, pos + 1))
        else ([], cnt, pos))"

definition comment_step :: "plan_env \<Rightarrow> int \<Rightarrow> lead \<Rightarrow> engage_counts \<times> nat \<Rightarrow> activity list \<times> engage_counts \<times> nat" where
  "comment_step env remainingComments l st =
     (case st of (cnt, pos) \<Rightarrow>
        if commentCount cnt < remainingComments then
          (if random env pos < comment_chance then
             ([\<lparr>a_type = ''comment'', a_leadId = l_id l, a_username = l_username l,
                a_message = None, a_postUrl = Some (postUrlOf l),
                a_comment = commentFor env (random env (pos + 1)),
                a_scheduledTime = timeFor env (random env (pos + 2)), a_priority = 2\<rparr>],
              cnt\<lparr>commentCount := commentCount cnt + 1\<rparr>, pos + 3)
           else ([], cnt, pos + 1))
        else ([], cnt, pos))"

fun engage_loop :: "plan_env \<Rightarrow> int \<Rightarrow> int \<Rightarrow> int \<Rightarrow> int \<Rightarrow> engage_counts \<times> nat \<Rightarrow> lead list \<Rightarrow> activity list \<times> engage_counts \<times> nat" where
  "engage_loop env rl rr rc nLeads st [] = ([], st)"
| "engage_loop env rl rr rc nLeads st (l # ls) =
     (if l_username l = [] then engage_loop env rl rr rc nLeads st ls
      else (case like_step env rl nLeads l st of
              (a1, st1) \<Rightarrow>
                (case retweet_step env rr l st1 of
                   (a2, st2) \<Rightarrow>
                     (case comment_step env rc l st2 of
                        (a3, st3) \<Rightarrow>
                          (case engage_loop env rl rr rc nLeads st3 ls of
                             (rest, st4) \<Rightarrow> (a1 @ a2 @ a3 @ rest, st4))))))"

text \<open>
  The comparator of \<open>activities.sort\<close>, and the sort: \<open>Array.prototype.sort\<close> is
  stable, so with this comparator (a total preorder) its result is the stable sorted
  rearrangement, which insertion from the right into a sorted list computes.
\<close>

definition compare_activities :: "activity \<Rightarrow> activity \<Rightarrow> int" where
  "compare_activities a b =
     (if a_priority a \<noteq> a_priority b then a_priority a - a_priority b
      else a_scheduledTime a - a_scheduledTime b)"

fun insert_sorted :: "('a \<Rightarrow> 'a \<Rightarrow> int) \<Rightarrow> 'a \<Rightarrow> 'a list \<Rightarrow> 'a list" where
  "insert_sorted cmp x [] = [x]"
| "insert_sorted cmp x (y # ys) =
     (if cmp x y \<le> 0 then x # y # ys else y # insert_sorted cmp x ys)"

definition js_sort :: "('a \<Rightarrow> 'a \<Rightarrow> int) \<Rightarrow> 'a list \<Rightarrow> 'a list" where
  "js_sort cmp xs = foldr (insert_sorted cmp) xs []"

text \<open>\<open>xs.slice(0, m)\<close>: a negative \<open>m\<close> counts from the end.\<close>

definition slice0 :: "int \<Rightarrow> 'a list \<Rightarrow> 'a list" where
  "slice0 m xs = (if m \<ge> 0 then take (nat m) xs else take (length xs - nat (- m)) xs)"

definition remaining :: "int \<Rightarrow> int \<Rightarrow> int" where
  "remaining limit used = max 0 (limit - used)"

text \<open>
  \<open>createDailyPlan(leads, maxActivities)\<close>: the plan and the scheduler afterwards (its
  counters may have been reset). \<open>maxActivities\<close> limits the plan when it is truthy
  (neither \<open>null\<close> nor 0).
\<close>

definition createDailyPlan :: "plan_env \<Rightarrow> scheduler \<Rightarrow> lead list \<Rightarrow> int option \<Rightarrow> activity list \<times> scheduler" where
  "createDailyPlan env sch leads maxActivities =
     (if leads = [] then ([], sch)
      else
        (let sch1 = resetDailyCountersIfNeeded (today env) sch;
             remainingDMs = remaining (dmPerDay (limits sch1)) (c_dm (counters sch1));
             remainingLikes = remaining (likesPerDay (limits sch1)) (c_likes (counters sch1));
             remainingRetweets = remaining (retweetsPerDay (limits sch1)) (c_retweets (counters sch1));
             remainingComments = remaining (commentsPerDay (limits sch1)) (c_comments (counters sch1))
         in (case dm_loop env remainingDMs 0 0 leads of
               (dms, dmCount, pos) \<Rightarrow>
                 (case engage_loop env remainingLikes remainingRetweets remainingComments
                         (int (length leads))
                         (\<lparr>likeCount = 0, retweetCount = 0, commentCount = 0\<rparr>, pos) leads of
                    (others, st) \<Rightarrow>
                      (let activities = js_sort compare_activities (dms @ others) in
                       (case maxActivities of
                          None \<Rightarrow> activities
                        | Some m \<Rightarrow> if m = 0 then activities else slice0 m activities,
                        sch1))))))"

text \<open>\<open>incrementCounter(activityType)\<close>: the only place where a daily counter grows.\<close>

definition incrementCounter :: "string \<Rightarrow> string \<Rightarrow> scheduler \<Rightarrow> scheduler" where
  "incrementCounter td activityType sch =
     (let sch1 = resetDailyCountersIfNeeded td sch; c = counters sch1 in
      if activityType = ''dm'' then sch1\<lparr>counters := c\<lparr>c_dm := c_dm c + 1\<rparr>\<rparr>
      else if activityType = ''like'' then sch1\<lparr>counters := c\<lparr>c_likes := c_likes c + 1\<rparr>\<rparr>
      else if activityType = ''retweet'' then sch1\<lparr>counters := c\<lparr>c_retweets := c_retweets c + 1\<rparr>\<rparr>
      else if activityType = ''comment'' then sch1\<lparr>counters := c\<lparr>c_comments := c_comments c + 1\<rparr>\<rparr>
      else sch1)"

definition canPerformActivity :: "string \<Rightarrow> string \<Rightarrow> scheduler \<Rightarrow> bool" where
  "canPerformActivity td activityType sch =
     (let sch1 = resetDailyCountersIfNeeded td sch; c = counters sch1; lim = limits sch1 in
      if activityType = ''dm'' then c_dm c < dmPerDay lim
      else if activityType = ''like'' then c_likes c < likesPerDay lim
      else if activityType = ''retweet'' then c_retweets c < retweetsPerDay lim
      else if activityType = ''comment'' then c_comments c < commentsPerDay lim
      else False)"

section \<open>The scraping phase (main.js scrapingPhase)\<close>

text \<open>
  The environment of the phase: what the scraper returns for the i-th keyword (or that
  it throws), what the read of the existing rows returns given the rows the sheet
  holds, and the environment of the append.
\<close>

record scrape_env =
  scrapeByKeyword :: "nat \<Rightarrow> string \<Rightarrow> scraped_lead list fetched"
  usernames_read :: "row list \<Rightarrow> row list fetched"
  append_env :: store_env

text \<open>The keyword loop: the leads of every keyword are pushed; a throwing scrape is logged.\<close>

fun scrape_keywords :: "(nat \<Rightarrow> string \<Rightarrow> scraped_lead list fetched) \<Rightarrow> nat \<Rightarrow> string list \<Rightarrow> scraped_lead list" where
  "scrape_keywords sc i [] = []"
| "scrape_keywords sc i (keyword # ks) =
     (case sc i keyword of Throws m \<Rightarrow> [] | Fetched leads \<Rightarrow> leads) @ scrape_keywords sc (Suc i) ks"

text \<open>
  The phase: its outcome (an exception of \<open>appendLeads\<close> is rethrown), the rows of the
  sheet afterwards, and the batch handed to \<open>appendLeads\<close> (empty when it is not called).
\<close>

definition scrapingPhase :: "scrape_env \<Rightarrow> string list \<Rightarrow> row list \<Rightarrow> (error + unit) \<times> row list \<times> scraped_lead list" where
  "scrapingPhase env keywords rows =
     (let newLeads = scrape_keywords (scrapeByKeyword env) 0 keywords;
          existingUsernames = getAllUsernames (usernames_read env rows);
          uniqueNewLeads = filter (\<lambda>l. sl_username l \<notin> set existingUsernames) newLeads
      in if uniqueNewLeads \<noteq> [] then
           (case appendLeads (append_env env) rows uniqueNewLeads of
              (res, rows', ds) \<Rightarrow> (res, rows', uniqueNewLeads))
         else (Inr (), rows, []))"

section \<open>The engagement phase (main.js engagementPhase, executeActivity)\<close>

text \<open>
  The environment of the phase: the read of the ready rows, the planning environment,
  and for the i-th activity executed what the bot does: whether \<open>sendDM\<close> throws, what
  \<open>getLatestTweetUrl\<close> returns (a URL, \<open>null\<close>, or it throws), whether the like, retweet
  or comment throws, and what the reads of \<open>markDMSent\<close> and \<open>logError\<close> return.
\<close>

record engage_env =
  ready_read :: "row list fetched"
  planning :: plan_env
  sendDM_throws :: "nat \<Rightarrow> activity \<Rightarrow> string option"
  getLatestTweetUrl :: "nat \<Rightarrow> activity \<Rightarrow> string option fetched"
  postAction_throws :: "nat \<Rightarrow> activity \<Rightarrow> string option"
  rows_read :: "nat \<Rightarrow> row list fetched"

datatype exec_result = Performed | SkippedNoTweet | UnknownType

text \<open>
  \<open>executeActivity\<close>: a direct message is sent and then marked in the sheet; for a
  like, retweet or comment the latest tweet is looked up and the activity is skipped
  when there is none (\<open>if (!postUrl) return\<close>, which the caller counts as done); any
  other type is only logged. The function destructures \<open>id\<close> from the activity; an
  activity has \<open>leadId\<close> and no \<open>id\<close>, so \<open>markDMSent\<close> is called with \<open>undefined\<close>.
\<close>

definition executeActivity :: "engage_env \<Rightarrow> nat \<Rightarrow> activity \<Rightarrow> row list \<Rightarrow> (error + exec_result) \<times> row list" where
  "executeActivity env i a store =
     (if a_type a = ''dm'' then
        (case sendDM_throws env i a of
           Some m \<Rightarrow> (Inl (Error m), store)
         | None \<Rightarrow> (Inr Performed, markDMSent None (rows_read env i) store))
      else if a_type a = ''like'' \<or> a_type a = ''retweet'' \<or> a_type a = ''comment'' then
        (case getLatestTweetUrl env i a of
           Throws m \<Rightarrow> (Inl (Error m), store)
         | Fetched postUrl \<Rightarrow>
             if \<not> truthy postUrl then (Inr SkippedNoTweet, store)
             else (case postAction_throws env i a of
                     Some m \<Rightarrow> (Inl (Error m), store)
                   | None \<Rightarrow> (Inr Performed, store)))
      else (Inr UnknownType, store))"

text \<open>
  The loop over \<open>activitiesToExecute\<close>: every activity is executed once, in order; an
  exception is logged with \<open>logError(activity.id, ...)\<close> (again an \<open>undefined\<close> id) and
  the loop goes on. The result lists every activity with what happened to it.
\<close>

fun execute_all :: "engage_env \<Rightarrow> nat \<Rightarrow> activity list \<Rightarrow> row list \<Rightarrow> (activity \<times> (error + exec_result)) list \<times> row list" where
  "execute_all env i [] store = ([], store)"
| "execute_all env i (a # acts) store =
     (case executeActivity env i a store of
        (Inr r, st) \<Rightarrow>
          (case execute_all env (Suc i) acts st of (entries, st') \<Rightarrow> ((a, Inr r) # entries, st'))
      | (Inl (Error m), st) \<Rightarrow>
          (case execute_all env (Suc i) acts
                  (logError None (''Engagement error: '' @ m) (rows_read env i) st) of
             (entries, st') \<Rightarrow> ((a, Inl (Error m)) # entries, st')))"

record engage_result =
  planned :: "activity list"
  executed :: "(activity \<times> (error + exec_result)) list"
  scheduler_after :: scheduler
  store_after :: "row list"

definition engagementPhase :: "bool \<Rightarrow> engage_env \<Rightarrow> scheduler \<Rightarrow> row list \<Rightarrow> engage_result" where
  "engagementPhase isDemo env sch store =
     (let leadsToEngage = getLeadsForEngagement (ready_read env) in
      if leadsToEngage = [] then
        \<lparr>planned = [], executed = [], scheduler_after = sch, store_after = store\<rparr>
      else
        (case createDailyPlan (planning env) sch leadsToEngage None of
           (dailyPlan, sch1) \<Rightarrow>
             if dailyPlan = [] then
               \<lparr>planned = [], executed = [], scheduler_after = sch1, store_after = store\<rparr>
             else if isDemo then
               \<lparr>planned = dailyPlan, executed = [], scheduler_after = sch1, store_after = store\<rparr>
             else
               (case execute_all env 0 (slice0 activitiesPerCycle dailyPlan) store of
                  (entries, st) \<Rightarrow>
                    \<lparr>planned = dailyPlan, executed = entries, scheduler_after = sch1,
                     store_after = st\<rparr>)))"

section \<open>Notions used in the statements\<close>

text \<open>
  A control value is unrecognized when it is not empty and, in upper case, none of
  \<open>RUN\<close>, \<open>PAUSE\<close>, \<open>STOP\<close>.
\<close>

definition unrecognized :: "string \<Rightarrow> bool" where
  "unrecognized v =
     (v \<noteq> [] \<and> toUpperCase v \<noteq> ''RUN'' \<and> toUpperCase v \<noteq> ''PAUSE'' \<and> toUpperCase v \<noteq> ''STOP'')"

fun is_start :: "event \<Rightarrow> bool" where
  "is_start (CycleStarted k) = True"
| "is_start e = False"

text \<open>
  A re-read shows a batch when it did not throw and every lead's username is among the
  Username cells of the rows it returned.
\<close>

definition all_visible :: "row list fetched \<Rightarrow> scraped_lead list \<Rightarrow> bool" where
  "all_visible rd leads =
     (case rd of
        Throws m \<Rightarrow> False
      | Fetched currentRows \<Rightarrow>
          list_all (\<lambda>l. sl_username l \<in> set (map r_username currentRows)) leads)"

text \<open>The Username cell \<open>addRow\<close> writes for a lead, and how many rows carry a handle.\<close>

definition written_username :: "scraped_lead \<Rightarrow> string option" where
  "written_username l = Some (js_or (sl_username l) [])"

definition count_username :: "string \<Rightarrow> row list \<Rightarrow> nat" where
  "count_username h rows = length (filter (\<lambda>r. r_username r = Some h) rows)"

text \<open>A store that never fails and shows every row at once.\<close>

definition reliable_store :: store_env where
  "reliable_store = \<lparr>addRow_throws = (\<lambda>k. None), view = (\<lambda>i rows. Fetched rows)\<rparr>"

text \<open>
  Notions about plans: a direct-message activity; the order of a plan (priority rank
  ascending, then scheduled time ascending); a lead that has a handle; how many
  activities of a kind a plan holds.
\<close>

definition is_dm :: "activity \<Rightarrow> bool" where
  "is_dm a = (a_type a = ''dm'')"

definition plan_order :: "activity \<Rightarrow> activity \<Rightarrow> bool" where
  "plan_order a b =
     (a_priority a < a_priority b \<or>
      (a_priority a = a_priority b \<and> a_scheduledTime a \<le> a_scheduledTime b))"

definition has_username :: "lead \<Rightarrow> bool" where
  "has_username l = (l_username l \<noteq> [])"

definition count_type :: "string \<Rightarrow> activity list \<Rightarrow> nat" where
  "count_type t acts = length (filter (\<lambda>a. a_type a = t) acts)"

section \<open>Example data\<close>

definition alice :: scraped_lead where
  "alice = \<lparr>sl_username = Some ''alice'', sl_bio = Some ''NBA fan''\<rparr>"

definition bob :: scraped_lead where
  "bob = \<lparr>sl_username = Some ''bob'', sl_bio = None\<rparr>"

text \<open>A store whose reads only ever show the first row, and one that shows all rows
  from the second verification read on.\<close>

definition lagging_store :: store_env where
  "lagging_store = \<lparr>addRow_throws = (\<lambda>k. None), view = (\<lambda>i rows. Fetched (take 1 rows))\<rparr>"

definition late_store :: store_env where
  "late_store =
     \<lparr>addRow_throws = (\<lambda>k. None),
      view = (\<lambda>i rows. if i = 0 then Fetched (take 1 rows) else Fetched rows)\<rparr>"

text \<open>A scraper that finds alice and bob for every keyword, on a reliable store whose
  read of the usernames succeeds, and the same with that read failing.\<close>

definition scrape_ok :: scrape_env where
  "scrape_ok =
     \<lparr>scrapeByKeyword = (\<lambda>i keyword. Fetched [alice, bob]),
      usernames_read = (\<lambda>rows. Fetched rows),
      append_env = reliable_store\<rparr>"

definition scrape_read_fails :: scrape_env where
  "scrape_read_fails =
     \<lparr>scrapeByKeyword = (\<lambda>i keyword. Fetched [alice, bob]),
      usernames_read = (\<lambda>rows. Throws ''socket hang up''),
      append_env = reliable_store\<rparr>"

text \<open>Two pending rows and an update for each.\<close>

definition two_rows :: "row list" where
  "two_rows = [new_row [] alice, new_row [new_row [] alice] bob]"

definition two_updates :: "update list" where
  "two_updates =
     [\<lparr>u_rowNumber = 2, u_status = ''PASS'', u_reason = ''ok''\<rparr>,
      \<lparr>u_rowNumber = 3, u_status = ''FAIL'', u_reason = ''too few followers''\<rparr>]"

text \<open>
  A planning environment whose random values never pass the retweet and comment chances
  and give the second scheduled time a later instant than the others; rows and leads
  ready for engagement; a bot on which every action succeeds; the scheduler of the
  configuration.
\<close>

definition calm_env :: plan_env where
  "calm_env =
     \<lparr>today = ''Mon Nov 02 2026'',
      random = (\<lambda>n. if n = 1 then 3 / 4 else 1 / 2),
      timeFor = (\<lambda>r. if r = 3 / 4 then 1793610002000 else 1793610001000),
      messageFor = (\<lambda>r l. ''Hi '' @ l_username l),
      commentFor = (\<lambda>r. None)\<rparr>"

definition ready_row :: "nat \<Rightarrow> string \<Rightarrow> row" where
  "ready_row i name =
     \<lparr>rowNumber = i, r_username = Some name, r_bio = None, r_filterStatus = Some ''PASS'',
      r_filterReason = Some ''ok'', r_dmStatus = Some ''NOT_SENT'', r_lastError = None\<rparr>"

definition fan :: "nat \<Rightarrow> lead" where
  "fan i = \<lparr>l_id = i, l_username = ''fan'', l_bio = []\<rparr>"

definition bot_ok :: "row list \<Rightarrow> engage_env" where
  "bot_ok rows =
     \<lparr>ready_read = Fetched rows, planning = calm_env,
      sendDM_throws = (\<lambda>i a. None),
      getLatestTweetUrl = (\<lambda>i a. Fetched (Some ''https://twitter.com/fan/status/1'')),
      postAction_throws = (\<lambda>i a. None),
      rows_read = (\<lambda>i. Fetched rows)\<rparr>"

definition crowd :: "lead list" where
  "crowd = map fan [2..<18]"

definition scheduler0 :: scheduler where
  "scheduler0 = new_scheduler config_rateLimits ''Mon Nov 02 2026''"

definition six_rows :: "row list" where
  "six_rows = map (\<lambda>i. ready_row i ''fan'') [2..<8]"

section \<open>The kill switch and the circuit breaker\<close>

lemma upper_char_idem: "upper_char (upper_char c) = upper_char c"
  by (simp add: upper_char_def)

lemma toUpperCase_idem: "toUpperCase (toUpperCase v) = toUpperCase v"
  by (simp add: toUpperCase_def upper_char_idem)

lemma toUpperCase_STOP: "toUpperCase ''STOP'' = ''STOP''"
  by (simp add: toUpperCase_def upper_char_def)

lemma checkKillSwitch_cell:
  "v \<noteq> [] \<Longrightarrow> checkKillSwitch (ControlRows (Some v # rest)) = (toUpperCase v \<noteq> ''RUN'')"
  by (simp add: checkKillSwitch_def getKillSwitchStatus_def js_or_def toUpperCase_idem)

lemma loop_broke:
  "\<not> isShuttingDown s \<Longrightarrow> try_block c = (ev, Broke) \<Longrightarrow>
   runAutomationLoop s n (c # cs) =
     \<lparr>final = s, cycleCount = Suc n, trace = CycleStarted (Suc n) # ev, returned = True\<rparr>"
  by (simp add: loop_iter_def)

lemma loop_threw_continue:
  "\<not> isShuttingDown s \<Longrightarrow> try_block c = (ev, Threw m) \<Longrightarrow> \<not> critical m \<Longrightarrow>
   errorCount s + 1 < maxErrors s \<Longrightarrow>
   runAutomationLoop s n (c # cs) =
     (let r = runAutomationLoop (s\<lparr>errorCount := errorCount s + 1\<rparr>) (Suc n) cs
      in r\<lparr>trace := (CycleStarted (Suc n) # ev @ [Slept retryDelay]) @ trace r\<rparr>)"
  by (simp add: loop_iter_def Let_def)

lemma loop_threw_trip:
  "\<not> isShuttingDown s \<Longrightarrow> try_block c = (ev, Threw m) \<Longrightarrow>
   errorCount s + 1 \<ge> maxErrors s \<or> critical m \<Longrightarrow>
   runAutomationLoop s n (c # cs) =
     \<lparr>final = s\<lparr>errorCount := errorCount s + 1, isShuttingDown := True\<rparr>, cycleCount = Suc n,
      trace = CycleStarted (Suc n) # ev @ [ShutDown], returned = True\<rparr>"
  by (auto simp add: loop_iter_def Let_def shutdown_def)

lemma try_block_events: "e \<in> set (fst (try_block c)) \<Longrightarrow> \<not> is_start e"
  by (auto simp add: try_block_def runPhase_def split: if_splits phase_outcome.splits)

lemma filter_try_block: "try_block c = (ev, r) \<Longrightarrow> filter is_start ev = []"
  using try_block_events[of _ c] by (auto simp: filter_empty_conv)

text \<open>
  A run of failing cycles, none of them critical, that brings the error counter exactly
  to the threshold: the loop returns at the last of them, shut down.
\<close>

lemma failing_run:
  "\<not> isShuttingDown s \<Longrightarrow>
   (\<forall>c\<in>set fs. \<exists>m. snd (try_block c) = Threw m \<and> \<not> critical m) \<Longrightarrow> fs \<noteq> [] \<Longrightarrow>
   errorCount s + int (length fs) = maxErrors s \<Longrightarrow>
   returned (runAutomationLoop s n (fs @ rest)) \<and>
   cycleCount (runAutomationLoop s n (fs @ rest)) = n + length fs \<and>
   final (runAutomationLoop s n (fs @ rest)) = s\<lparr>errorCount := maxErrors s, isShuttingDown := True\<rparr> \<and>
   length (filter is_start (trace (runAutomationLoop s n (fs @ rest)))) = length fs \<and>
   last (trace (runAutomationLoop s n (fs @ rest))) = ShutDown"
proof (induction fs arbitrary: s n)
  case Nil
  then show ?case by simp
next
  case (Cons c fs)
  from Cons.prems obtain m ev where tb: "try_block c = (ev, Threw m)" and nc: "\<not> critical m"
    by (metis list.set_intros(1) prod.collapse)
  have fe: "filter is_start ev = []" using tb by (rule filter_try_block)
  show ?case
  proof (cases "fs = []")
    case True
    with Cons.prems have "errorCount s + 1 \<ge> maxErrors s" by simp
    with Cons.prems(1) tb have "runAutomationLoop s n (c # rest) =
     \<lparr>final = s\<lparr>errorCount := errorCount s + 1, isShuttingDown := True\<rparr>, cycleCount = Suc n,
      trace = CycleStarted (Suc n) # ev @ [ShutDown], returned = True\<rparr>"
      by (intro loop_threw_trip) auto
    then show ?thesis using True Cons.prems(4) fe by simp
  next
    case False
    let ?s1 = "s\<lparr>errorCount := errorCount s + 1\<rparr>"
    from False Cons.prems have lt: "errorCount s + 1 < maxErrors s" by (cases fs) auto
    have step: "runAutomationLoop s n ((c # fs) @ rest) =
       (let r = runAutomationLoop ?s1 (Suc n) (fs @ rest)
        in r\<lparr>trace := (CycleStarted (Suc n) # ev @ [Slept retryDelay]) @ trace r\<rparr>)"
      using loop_threw_continue[OF Cons.prems(1) tb nc lt] by simp
    have ih: "returned (runAutomationLoop ?s1 (Suc n) (fs @ rest)) \<and>
       cycleCount (runAutomationLoop ?s1 (Suc n) (fs @ rest)) = Suc n + length fs \<and>
       final (runAutomationLoop ?s1 (Suc n) (fs @ rest)) =
         ?s1\<lparr>errorCount := maxErrors ?s1, isShuttingDown := True\<rparr> \<and>
       length (filter is_start (trace (runAutomationLoop ?s1 (Suc n) (fs @ rest)))) = length fs \<and>
       last (trace (runAutomationLoop ?s1 (Suc n) (fs @ rest))) = ShutDown"
      using Cons.prems False by (intro Cons.IH) auto
    have ne: "trace (runAutomationLoop ?s1 (Suc n) (fs @ rest)) \<noteq> []"
      using ih False by (metis filter.simps(1) length_0_conv)
    show ?thesis unfolding step using ih ne fe by (simp add: Let_def)
  qed
qed

text \<open>
  C1 (as amended). The control value maps as follows. \<open>STOP\<close>, and any unrecognized
  value, make \<open>runPhase\<close> return true without running the phase; \<open>RUN\<close> in any letter
  case lets the phase run. When a check before any of the three phases says stop, the
  \<open>try\<close> block is left by \<open>break\<close> with only the earlier phases run, and the loop then
  returns at once: no sleep, no re-check, no later phase, and the state unchanged.
\<close>

theorem kill_switch_mapping:
  "(v = ''STOP'' \<or> unrecognized v \<longrightarrow>
      runPhase (ControlRows (Some v # rest)) ph name = ([], Inr True)) \<and>
   (toUpperCase v = ''RUN'' \<longrightarrow>
      runPhase (ControlRows (Some v # rest)) ph name =
        (case ph of PhaseDone \<Rightarrow> ([PhaseRan name], Inr False)
                  | PhaseThrows m \<Rightarrow> ([PhaseRan name], Inl m))) \<and>
   (checkKillSwitch (kill1 c) \<longrightarrow> try_block c = ([], Broke)) \<and>
   (\<not> checkKillSwitch (kill1 c) \<and> scraping c = PhaseDone \<and> checkKillSwitch (kill2 c) \<longrightarrow>
      try_block c = ([PhaseRan ''scraping''], Broke)) \<and>
   (\<not> checkKillSwitch (kill1 c) \<and> scraping c = PhaseDone \<and>
    \<not> checkKillSwitch (kill2 c) \<and> filtering c = PhaseDone \<and> checkKillSwitch (kill3 c) \<longrightarrow>
      try_block c = ([PhaseRan ''scraping'', PhaseRan ''filtering''], Broke)) \<and>
   (\<not> isShuttingDown s \<and> snd (try_block c) = Broke \<longrightarrow>
      runAutomationLoop s n (c # cs) =
        \<lparr>final = s, cycleCount = Suc n, trace = CycleStarted (Suc n) # fst (try_block c),
         returned = True\<rparr>)"
proof (intro conjI impI)
  assume "v = ''STOP'' \<or> unrecognized v"
  then have "v \<noteq> [] \<and> toUpperCase v \<noteq> ''RUN''"
    by (auto simp: unrecognized_def toUpperCase_STOP)
  then show "runPhase (ControlRows (Some v # rest)) ph name = ([], Inr True)"
    by (simp add: runPhase_def checkKillSwitch_cell)
next
  assume run: "toUpperCase v = ''RUN''"
  then have "v \<noteq> []" by (auto simp: toUpperCase_def)
  with run show "runPhase (ControlRows (Some v # rest)) ph name =
        (case ph of PhaseDone \<Rightarrow> ([PhaseRan name], Inr False)
                  | PhaseThrows m \<Rightarrow> ([PhaseRan name], Inl m))"
    by (simp add: runPhase_def checkKillSwitch_cell)
next
  assume "checkKillSwitch (kill1 c)"
  then show "try_block c = ([], Broke)"
    by (simp add: try_block_def runPhase_def)
next
  assume "\<not> checkKillSwitch (kill1 c) \<and> scraping c = PhaseDone \<and> checkKillSwitch (kill2 c)"
  then show "try_block c = ([PhaseRan ''scraping''], Broke)"
    by (simp add: try_block_def runPhase_def)
next
  assume "\<not> checkKillSwitch (kill1 c) \<and> scraping c = PhaseDone \<and>
    \<not> checkKillSwitch (kill2 c) \<and> filtering c = PhaseDone \<and> checkKillSwitch (kill3 c)"
  then show "try_block c = ([PhaseRan ''scraping'', PhaseRan ''filtering''], Broke)"
    by (simp add: try_block_def runPhase_def)
next
  assume a: "\<not> isShuttingDown s \<and> snd (try_block c) = Broke"
  then have "try_block c = (fst (try_block c), Broke)" by (metis prod.collapse)
  with a show "runAutomationLoop s n (c # cs) =
        \<lparr>final = s, cycleCount = Suc n, trace = CycleStarted (Suc n) # fst (try_block c),
         returned = True\<rparr>"
    by (intro loop_broke) auto
qed

text \<open>
  The theorem at concrete inputs: the values \<open>STOP\<close>, \<open>halt\<close> (unrecognized) and \<open>run\<close>,
  and a cycle whose second check reads \<open>STOP\<close>.
\<close>

theorem kill_switch_mapping_witness:
  "runPhase (ControlRows [Some ''STOP'']) PhaseDone ''scraping'' = ([], Inr True) \<and>
   runPhase (ControlRows [Some ''halt'']) PhaseDone ''scraping'' = ([], Inr True) \<and>
   runPhase (ControlRows [Some ''run'']) PhaseDone ''scraping'' = ([PhaseRan ''scraping''], Inr False) \<and>
   runAutomationLoop initial_sys 0
     [\<lparr>kill1 = ControlRows [Some ''RUN''], scraping = PhaseDone,
       kill2 = ControlRows [Some ''STOP''], filtering = PhaseDone,
       kill3 = ControlRows [Some ''RUN''], engagement = PhaseDone\<rparr>] =
     \<lparr>final = initial_sys, cycleCount = 1,
      trace = [CycleStarted 1, PhaseRan ''scraping''], returned = True\<rparr>"
proof -
  let ?c = "\<lparr>kill1 = ControlRows [Some ''RUN''], scraping = PhaseDone,
       kill2 = ControlRows [Some ''STOP''], filtering = PhaseDone,
       kill3 = ControlRows [Some ''RUN''], engagement = PhaseDone\<rparr>"
  have up: "toUpperCase ''run'' = ''RUN''" "toUpperCase ''halt'' = ''HALT''"
    by (simp_all add: toUpperCase_def upper_char_def)
  have k: "\<not> checkKillSwitch (ControlRows [Some ''RUN''])" "checkKillSwitch (ControlRows [Some ''STOP''])"
    by (simp_all add: checkKillSwitch_def getKillSwitchStatus_def js_or_def toUpperCase_def upper_char_def)
  have un: "unrecognized ''halt''" by (simp add: unrecognized_def up)
  have tb: "try_block ?c = ([PhaseRan ''scraping''], Broke)"
    using kill_switch_mapping[of "''STOP''" "[]" PhaseDone "''scraping''" ?c initial_sys 0 "[]"] k
    by simp
  have ns: "\<not> isShuttingDown initial_sys" by (simp add: initial_sys_def)
  show ?thesis
    using kill_switch_mapping[of "''STOP''" "[]" PhaseDone "''scraping''" ?c initial_sys 0 "[]"]
      kill_switch_mapping[of "''halt''" "[]" PhaseDone "''scraping''" ?c initial_sys 0 "[]"]
      kill_switch_mapping[of "''run''" "[]" PhaseDone "''scraping''" ?c initial_sys 0 "[]"]
      up un tb ns
    by simp
qed

text \<open>
  The claim as stated fails: with the unrecognized value \<open>HALT\<close> before the first phase
  the loop returns without running any phase although the next cycle would read \<open>RUN\<close>;
  and with \<open>PAUSE\<close> it returns as well, without sleeping or reading the cell again.
\<close>

theorem kill_switch_counterexample:
  "runAutomationLoop initial_sys 0
     [\<lparr>kill1 = ControlRows [Some ''HALT''], scraping = PhaseDone,
       kill2 = ControlRows [Some ''RUN''], filtering = PhaseDone,
       kill3 = ControlRows [Some ''RUN''], engagement = PhaseDone\<rparr>,
      \<lparr>kill1 = ControlRows [Some ''RUN''], scraping = PhaseDone,
       kill2 = ControlRows [Some ''RUN''], filtering = PhaseDone,
       kill3 = ControlRows [Some ''RUN''], engagement = PhaseDone\<rparr>] =
     \<lparr>final = initial_sys, cycleCount = 1, trace = [CycleStarted 1], returned = True\<rparr> \<and>
   runAutomationLoop initial_sys 0
     [\<lparr>kill1 = ControlRows [Some ''PAUSE''], scraping = PhaseDone,
       kill2 = ControlRows [Some ''RUN''], filtering = PhaseDone,
       kill3 = ControlRows [Some ''RUN''], engagement = PhaseDone\<rparr>,
      \<lparr>kill1 = ControlRows [Some ''RUN''], scraping = PhaseDone,
       kill2 = ControlRows [Some ''RUN''], filtering = PhaseDone,
       kill3 = ControlRows [Some ''RUN''], engagement = PhaseDone\<rparr>] =
     \<lparr>final = initial_sys, cycleCount = 1, trace = [CycleStarted 1], returned = True\<rparr>"
  by (simp add: initial_sys_def loop_iter_def try_block_def runPhase_def checkKillSwitch_def
      getKillSwitchStatus_def js_or_def toUpperCase_def upper_char_def)

text \<open>
  C9. With the threshold 5 of the configuration and the error counter at zero, five
  cycles in a row that each throw an error that is not a permission error make the loop
  return at the fifth: five cycles were started, the system is shut down, the counter is
  5, and whatever cycles the environment would offer next are not started. And a cycle
  that completes without exception sets the counter to zero and lets the loop go on.
\<close>

theorem circuit_breaker_trips_at_threshold:
  assumes "\<not> isShuttingDown s" and "errorCount s = 0" and "maxErrors s = circuitBreakerThreshold"
    and "length fs = 5"
    and "\<forall>c\<in>set fs. \<exists>m. snd (try_block c) = Threw m \<and> \<not> critical m"
  shows "returned (runAutomationLoop s n (fs @ rest)) \<and>
         cycleCount (runAutomationLoop s n (fs @ rest)) = n + 5 \<and>
         length (filter is_start (trace (runAutomationLoop s n (fs @ rest)))) = 5 \<and>
         last (trace (runAutomationLoop s n (fs @ rest))) = ShutDown \<and>
         isShuttingDown (final (runAutomationLoop s n (fs @ rest))) \<and>
         errorCount (final (runAutomationLoop s n (fs @ rest))) = 5 \<and>
         (snd (try_block c) = Completed \<longrightarrow>
            errorCount (fst (loop_iter s' k c)) = 0 \<and> snd (snd (loop_iter s' k c)))"
proof -
  have ne: "fs \<noteq> []" using assms(4) by auto
  have sum: "errorCount s + int (length fs) = maxErrors s"
    using assms by (simp add: circuitBreakerThreshold_def)
  have run: "returned (runAutomationLoop s n (fs @ rest)) \<and>
   cycleCount (runAutomationLoop s n (fs @ rest)) = n + length fs \<and>
   final (runAutomationLoop s n (fs @ rest)) = s\<lparr>errorCount := maxErrors s, isShuttingDown := True\<rparr> \<and>
   length (filter is_start (trace (runAutomationLoop s n (fs @ rest)))) = length fs \<and>
   last (trace (runAutomationLoop s n (fs @ rest))) = ShutDown"
    by (rule failing_run[OF assms(1) assms(5) ne sum])
  have reset: "snd (try_block c) = Completed \<longrightarrow>
            errorCount (fst (loop_iter s' k c)) = 0 \<and> snd (snd (loop_iter s' k c))"
    by (cases "try_block c") (auto simp: loop_iter_def)
  show ?thesis using run reset assms(3,4) by (simp add: circuitBreakerThreshold_def)
qed

text \<open>
  The theorem at five cycles whose scraping phase throws the error of an unverified
  write, followed by a sixth cycle that would succeed; and at a completed cycle entered
  with the counter at 3.
\<close>

theorem circuit_breaker_trips_at_threshold_witness:
  "cycleCount (runAutomationLoop initial_sys 0
     (replicate 5 \<lparr>kill1 = ControlRows [Some ''RUN''],
                   scraping = PhaseThrows ''Post-write content verification failed.'',
                   kill2 = ControlRows [Some ''RUN''], filtering = PhaseDone,
                   kill3 = ControlRows [Some ''RUN''], engagement = PhaseDone\<rparr> @
      [\<lparr>kill1 = ControlRows [Some ''RUN''], scraping = PhaseDone,
        kill2 = ControlRows [Some ''RUN''], filtering = PhaseDone,
        kill3 = ControlRows [Some ''RUN''], engagement = PhaseDone\<rparr>])) = 5 \<and>
   isShuttingDown (final (runAutomationLoop initial_sys 0
     (replicate 5 \<lparr>kill1 = ControlRows [Some ''RUN''],
                   scraping = PhaseThrows ''Post-write content verification failed.'',
                   kill2 = ControlRows [Some ''RUN''], filtering = PhaseDone,
                   kill3 = ControlRows [Some ''RUN''], engagement = PhaseDone\<rparr> @
      [\<lparr>kill1 = ControlRows [Some ''RUN''], scraping = PhaseDone,
        kill2 = ControlRows [Some ''RUN''], filtering = PhaseDone,
        kill3 = ControlRows [Some ''RUN''], engagement = PhaseDone\<rparr>]))) \<and>
   errorCount (fst (loop_iter (initial_sys\<lparr>errorCount := 3\<rparr>) 4
      \<lparr>kill1 = ControlRows [Some ''RUN''], scraping = PhaseDone,
       kill2 = ControlRows [Some ''RUN''], filtering = PhaseDone,
       kill3 = ControlRows [Some ''RUN''], engagement = PhaseDone\<rparr>)) = 0"
proof -
  let ?bad = "\<lparr>kill1 = ControlRows [Some ''RUN''],
                   scraping = PhaseThrows ''Post-write content verification failed.'',
                   kill2 = ControlRows [Some ''RUN''], filtering = PhaseDone,
                   kill3 = ControlRows [Some ''RUN''], engagement = PhaseDone\<rparr>"
  let ?ok = "\<lparr>kill1 = ControlRows [Some ''RUN''], scraping = PhaseDone,
        kill2 = ControlRows [Some ''RUN''], filtering = PhaseDone,
        kill3 = ControlRows [Some ''RUN''], engagement = PhaseDone\<rparr>"
  have k: "\<not> checkKillSwitch (ControlRows [Some ''RUN''])"
    by (simp add: checkKillSwitch_def getKillSwitchStatus_def js_or_def toUpperCase_def upper_char_def)
  have bad: "snd (try_block ?bad) = Threw ''Post-write content verification failed.''"
    using k by (simp add: try_block_def runPhase_def)
  have nc: "\<not> critical ''Post-write content verification failed.''"
    by (simp add: critical_def)
  have ok: "snd (try_block ?ok) = Completed"
    using k by (simp add: try_block_def runPhase_def)
  have h: "\<forall>c\<in>set (replicate 5 ?bad). \<exists>m. snd (try_block c) = Threw m \<and> \<not> critical m"
    using bad nc by simp
  have i: "\<not> isShuttingDown initial_sys" "errorCount initial_sys = 0"
    "maxErrors initial_sys = circuitBreakerThreshold"
    by (simp_all add: initial_sys_def)
  show ?thesis
    using circuit_breaker_trips_at_threshold[OF i(1) i(2) i(3) _ h,
        of 0 "[?ok]" ?ok "initial_sys\<lparr>errorCount := 3\<rparr>" 4] ok
    by simp
qed

section \<open>The store adapter and the scraping phase\<close>

lemma unverified_empty: "(unverifiedLeads cur leads = []) = all_visible (Fetched cur) leads"
  by (auto simp: unverifiedLeads_def all_visible_def filter_empty_conv list_all_iff)

lemma verify_loop_fail:
  "(\<And>j. j < k \<Longrightarrow> \<not> all_visible (reads (i + j)) leads) \<Longrightarrow>
   verify_loop reads leads i k = (False, map (\<lambda>j. 7000 * (int (i + j) + 1)) [0..<k])"
proof (induction k arbitrary: i)
  case 0
  then show ?case by simp
next
  case (Suc k)
  have nv: "\<not> all_visible (reads i) leads" using Suc.prems[of 0] by simp
  have ih: "verify_loop reads leads (Suc i) k = (False, map (\<lambda>j. 7000 * (int (Suc i + j) + 1)) [0..<k])"
  proof (rule Suc.IH)
    fix j assume "j < k"
    then show "\<not> all_visible (reads (Suc i + j)) leads" using Suc.prems[of "Suc j"] by simp
  qed
  have m: "map (\<lambda>j. 7000 * (int (i + j) + 1)) [0..<Suc k] =
      7000 * (int i + 1) # map (\<lambda>j. 7000 * (int (Suc i + j) + 1)) [0..<k]"
    by (simp add: upt_rec[of 0 "Suc k"] map_Suc_upt[symmetric] del: upt_Suc)
  show ?case
  proof (cases "reads i")
    case (Throws x)
    then show ?thesis using ih m by (simp add: Let_def del: upt_Suc)
  next
    case (Fetched cur)
    then have "unverifiedLeads cur leads \<noteq> []" using nv by (simp add: unverified_empty)
    then show ?thesis using Fetched ih m by (simp add: Let_def del: upt_Suc)
  qed
qed

lemma verify_loop_ok:
  "j < k \<Longrightarrow> all_visible (reads (i + j)) leads \<Longrightarrow> fst (verify_loop reads leads i k)"
proof (induction k arbitrary: i j)
  case 0
  then show ?case by simp
next
  case (Suc k)
  show ?case
  proof (cases j)
    case 0
    then obtain cur where "reads i = Fetched cur" "unverifiedLeads cur leads = []"
      using Suc.prems by (cases "reads i") (auto simp: all_visible_def unverified_empty)
    then show ?thesis by (simp add: Let_def)
  next
    case (Suc j')
    then have "fst (verify_loop reads leads (Suc i) k)"
      using Suc.prems Suc.IH[of j' "Suc i"] by simp
    then show ?thesis
      by (cases "reads i") (auto simp: Let_def split: prod.splits)
  qed
qed

text \<open>
  C2. After all insert requests of a non-empty batch were issued without error: if on
  each of the three verification reads (waited for 7, 14 and 21 seconds) the read throws
  or some username of the batch is missing, \<open>appendLeads\<close> fails with the error of an
  unverified write; if some one of the three reads shows every username of the batch, it
  returns without error.
\<close>

theorem write_verification:
  assumes "leads \<noteq> []" and "add_rows (addRow_throws env) rows leads 0 = (None, rows')"
  shows "((\<forall>i<3. \<not> all_visible (view env i rows') leads) \<longrightarrow>
            appendLeads env rows leads = (Inl verification_failed, rows', [7000, 14000, 21000])) \<and>
         ((\<exists>i<3. all_visible (view env i rows') leads) \<longrightarrow>
            fst (appendLeads env rows leads) = Inr ())"
proof (intro conjI impI)
  assume a: "\<forall>i<3. \<not> all_visible (view env i rows') leads"
  have "verify_loop (\<lambda>i. view env i rows') leads 0 3 = (False, map (\<lambda>j. 7000 * (int (0 + j) + 1)) [0..<3])"
    by (rule verify_loop_fail) (use a in auto)
  moreover have "[0..<3] = [0, 1, 2]" by (simp add: upt_rec)
  ultimately show "appendLeads env rows leads = (Inl verification_failed, rows', [7000, 14000, 21000])"
    using assms by (simp add: appendLeads_def maxRetries_def)
next
  assume "\<exists>i<3. all_visible (view env i rows') leads"
  then obtain i where "i < 3" "all_visible (view env (0 + i) rows') leads" by auto
  then have "fst (verify_loop (\<lambda>i. view env i rows') leads 0 3)"
    by (rule verify_loop_ok)
  then show "fst (appendLeads env rows leads) = Inr ()"
    using assms by (auto simp add: appendLeads_def maxRetries_def split: prod.splits bool.splits)
qed

text \<open>
  The theorem at the batch of alice and bob: on the store that only ever shows the first
  row the append fails after the three delays; on the store that shows both rows from
  the second read on it succeeds.
\<close>

theorem write_verification_witness:
  "appendLeads lagging_store [] [alice, bob] =
     (Inl verification_failed, snd (add_rows (\<lambda>k. None) [] [alice, bob] 0), [7000, 14000, 21000]) \<and>
   fst (appendLeads late_store [] [alice, bob]) = Inr ()"
proof -
  let ?rows = "snd (add_rows (\<lambda>k. None) [] [alice, bob] 0)"
  have ne: "[alice, bob] \<noteq> []" by simp
  have a1: "add_rows (addRow_throws lagging_store) [] [alice, bob] 0 = (None, ?rows)"
    by (simp add: lagging_store_def)
  have a2: "add_rows (addRow_throws late_store) [] [alice, bob] 0 = (None, ?rows)"
    by (simp add: late_store_def)
  have v1: "\<forall>i<3. \<not> all_visible (view lagging_store i ?rows) [alice, bob]"
    by (simp add: lagging_store_def all_visible_def new_row_def js_or_def alice_def bob_def)
  have "all_visible (view late_store 1 ?rows) [alice, bob]"
    by (simp add: late_store_def all_visible_def new_row_def js_or_def alice_def bob_def)
  then have v2: "\<exists>i<3. all_visible (view late_store i ?rows) [alice, bob]"
    by (intro exI[of _ 1]) simp
  show ?thesis
    using write_verification[OF ne a1] write_verification[OF ne a2] v1 v2 by simp
qed

lemma add_rows_usernames:
  "add_rows thr rows leads k = (e, rows') \<Longrightarrow>
   \<exists>n\<le>length leads. map r_username rows' = map r_username rows @ map written_username (take n leads) \<and>
      (e = None \<longrightarrow> n = length leads)"
proof (induction leads arbitrary: rows k)
  case Nil
  then show ?case by auto
next
  case (Cons l ls)
  show ?case
  proof (cases "thr k")
    case None
    with Cons.prems have "add_rows thr (rows @ [new_row rows l]) ls (Suc k) = (e, rows')" by simp
    from Cons.IH[OF this] obtain n where n: "n \<le> length ls"
      "map r_username rows' = map r_username (rows @ [new_row rows l]) @ map written_username (take n ls)"
      "e = None \<longrightarrow> n = length ls" by blast
    have "map r_username rows' = map r_username rows @ map written_username (take (Suc n) (l # ls))"
      using n(2) by (simp add: new_row_def written_username_def)
    with n(1,3) show ?thesis by (intro exI[of _ "Suc n"]) auto
  next
    case (Some m)
    with Cons.prems have "rows' = rows" by simp
    then show ?thesis by (intro exI[of _ 0]) (use Some Cons.prems in auto)
  qed
qed

lemma add_rows_never_throwing:
  "(\<And>j. thr j = None) \<Longrightarrow> fst (add_rows thr rows leads k) = None"
  by (induction leads arbitrary: rows k) auto

lemma appendLeads_rows:
  "fst (snd (appendLeads env rows leads)) = snd (add_rows (addRow_throws env) rows leads 0)"
  by (cases leads) (auto simp: appendLeads_def split: prod.splits option.splits bool.splits)

lemma appendLeads_usernames:
  assumes "\<And>j. addRow_throws env j = None"
  shows "map r_username (fst (snd (appendLeads env rows leads))) =
         map r_username rows @ map written_username leads"
proof -
  obtain e rows' where ar: "add_rows (addRow_throws env) rows leads 0 = (e, rows')"
    by (cases "add_rows (addRow_throws env) rows leads 0")
  have "e = None" using add_rows_never_throwing[of "addRow_throws env" rows leads 0] assms ar by simp
  with add_rows_usernames[OF ar] have "map r_username rows' = map r_username rows @ map written_username leads"
    by auto
  then show ?thesis using ar by (simp add: appendLeads_rows)
qed

lemma count_username_map:
  "count_username h rows = length (filter (\<lambda>u. u = Some h) (map r_username rows))"
  by (simp add: count_username_def filter_map comp_def)

lemma scrapingPhase_batch:
  "snd (snd (scrapingPhase env keywords rows)) =
     filter (\<lambda>l. sl_username l \<notin> set (getAllUsernames (usernames_read env rows)))
       (scrape_keywords (scrapeByKeyword env) 0 keywords)"
  by (auto simp: scrapingPhase_def Let_def split: prod.splits)

lemma scrapingPhase_rows:
  "\<exists>n. map r_username (fst (snd (scrapingPhase env keywords rows))) =
     map r_username rows @ map written_username (take n (snd (snd (scrapingPhase env keywords rows))))"
proof (cases "snd (snd (scrapingPhase env keywords rows)) = []")
  case True
  then have "fst (snd (scrapingPhase env keywords rows)) = rows"
    by (auto simp: scrapingPhase_def Let_def split: prod.splits if_splits)
  with True show ?thesis by simp
next
  case False
  let ?b = "snd (snd (scrapingPhase env keywords rows))"
  have r: "fst (snd (scrapingPhase env keywords rows)) = fst (snd (appendLeads (append_env env) rows ?b))"
    using False by (auto simp: scrapingPhase_def Let_def split: prod.splits if_splits)
  obtain e rows' where ar: "add_rows (addRow_throws (append_env env)) rows ?b 0 = (e, rows')"
    by (cases "add_rows (addRow_throws (append_env env)) rows ?b 0")
  from add_rows_usernames[OF ar] obtain n where
    "map r_username rows' = map r_username rows @ map written_username (take n ?b)" by blast
  then show ?thesis using r ar by (auto simp: appendLeads_rows)
qed

text \<open>
  C5 (as amended). When the read of the existing usernames succeeds and returns the rows
  of the sheet, a non-empty handle that is in the sheet at the start of the scraping
  phase is not the handle of any lead handed to \<open>appendLeads\<close>, and the number of rows
  that carry it is the same after the phase.
\<close>

theorem dedup_against_store:
  assumes "usernames_read env rows = Fetched rows" and "h \<noteq> []"
    and "Some h \<in> set (map r_username rows)"
  shows "Some h \<notin> sl_username ` set (snd (snd (scrapingPhase env keywords rows))) \<and>
         count_username h (fst (snd (scrapingPhase env keywords rows))) = count_username h rows"
proof -
  let ?b = "snd (snd (scrapingPhase env keywords rows))"
  have ex: "Some h \<in> set (getAllUsernames (usernames_read env rows))"
    using assms by (auto simp: getAllUsernames_def truthy_def)
  have nb: "Some h \<notin> sl_username ` set ?b"
    using ex by (auto simp: scrapingPhase_batch)
  have nw: "Some h \<notin> written_username ` set ?b"
  proof
    assume "Some h \<in> written_username ` set ?b"
    then obtain l where l: "l \<in> set ?b" "written_username l = Some h" by auto
    then have "sl_username l = Some h" using assms(2)
      by (auto simp: written_username_def js_or_def split: option.splits if_splits)
    with l(1) nb show False by force
  qed
  obtain n where n: "map r_username (fst (snd (scrapingPhase env keywords rows))) =
     map r_username rows @ map written_username (take n ?b)"
    using scrapingPhase_rows by blast
  have "filter (\<lambda>u. u = Some h) (map written_username (take n ?b)) = []"
  proof -
    have "\<And>x. x \<in> set (take n ?b) \<Longrightarrow> written_username x \<noteq> Some h"
      using nw in_set_takeD[of _ n ?b] by (metis image_eqI)
    then show ?thesis by (auto simp: filter_empty_conv)
  qed
  then have "count_username h (fst (snd (scrapingPhase env keywords rows))) = count_username h rows"
    by (simp add: count_username_map n)
  with nb show ?thesis by simp
qed

text \<open>
  The theorem on a sheet that holds alice, with alice and bob scraped: only bob is
  appended, and alice still has one row.
\<close>

theorem dedup_against_store_witness:
  "Some ''alice'' \<notin> sl_username ` set (snd (snd (scrapingPhase scrape_ok [''tips''] [new_row [] alice]))) \<and>
   count_username ''alice'' (fst (snd (scrapingPhase scrape_ok [''tips''] [new_row [] alice]))) = 1"
proof -
  have r: "usernames_read scrape_ok [new_row [] alice] = Fetched [new_row [] alice]"
    by (simp add: scrape_ok_def)
  have h: "''alice'' \<noteq> []" by simp
  have p: "Some ''alice'' \<in> set (map r_username [new_row [] alice])"
    by (simp add: new_row_def alice_def js_or_def)
  have c: "count_username ''alice'' [new_row [] alice] = 1"
    by (simp add: count_username_def new_row_def alice_def js_or_def)
  show ?thesis
    using dedup_against_store[OF r h p, of "[''tips'']"] c by simp
qed

text \<open>
  The claim as stated fails when the read of the existing usernames throws:
  \<open>getAllUsernames\<close> then returns the empty set, alice is handed to \<open>appendLeads\<close>
  although the sheet holds her, and she ends with two rows.
\<close>

theorem dedup_counterexample:
  "snd (snd (scrapingPhase scrape_read_fails [''tips''] [new_row [] alice])) = [alice, bob] \<and>
   count_username ''alice'' (fst (snd (scrapingPhase scrape_read_fails [''tips''] [new_row [] alice]))) = 2"
  by (simp add: scrapingPhase_def scrape_read_fails_def getAllUsernames_def appendLeads_def
      reliable_store_def maxRetries_def unverifiedLeads_def count_username_def new_row_def
      alice_def bob_def js_or_def Let_def eval_nat_numeral)

lemma save_all_first_failure:
  "k < length q \<Longrightarrow> thr (i + k) = Some m \<Longrightarrow> (\<And>j. j < k \<Longrightarrow> thr (i + j) = None) \<Longrightarrow>
   save_all thr pending store q i =
     (Some (Error m), foldl (\<lambda>st rn. save_row pending rn st) store (take k q), take (Suc k) q)"
proof (induction q arbitrary: store i k)
  case Nil
  then show ?case by simp
next
  case (Cons rn q)
  show ?case
  proof (cases k)
    case 0
    with Cons.prems show ?thesis by simp
  next
    case (Suc k')
    have t0: "thr i = None" using Cons.prems(3)[of 0] Suc by simp
    have "save_all thr pending (save_row pending rn store) q (Suc i) =
      (Some (Error m), foldl (\<lambda>st rn. save_row pending rn st) (save_row pending rn store) (take k' q),
       take (Suc k') q)"
    proof (rule Cons.IH)
      show "k' < length q" using Cons.prems(1) Suc by simp
      show "thr (Suc i + k') = Some m" using Cons.prems(2) Suc by simp
      fix j assume "j < k'"
      then show "thr (Suc i + j) = None" using Cons.prems(3)[of "Suc j"] Suc by simp
    qed
    then show ?thesis using t0 Suc by simp
  qed
qed

lemma save_all_no_failure:
  "(\<And>j. j < length q \<Longrightarrow> thr (i + j) = None) \<Longrightarrow>
   save_all thr pending store q i = (None, foldl (\<lambda>st rn. save_row pending rn st) store q, q)"
proof (induction q arbitrary: store i)
  case Nil
  then show ?case by simp
next
  case (Cons rn q)
  have t0: "thr i = None" using Cons.prems[of 0] by simp
  have "save_all thr pending (save_row pending rn store) q (Suc i) =
      (None, foldl (\<lambda>st rn. save_row pending rn st) (save_row pending rn store) q, q)"
  proof (rule Cons.IH)
    fix j assume "j < length q"
    then show "thr (Suc i + j) = None" using Cons.prems[of "Suc j"] by simp
  qed
  then show ?case using t0 by simp
qed

lemma queue_updates_rows:
  "snd (queue_updates rows updates pending) =
     map u_rowNumber (filter (\<lambda>u. u_rowNumber u \<in> set (map rowNumber rows)) updates)"
proof (induction updates arbitrary: pending)
  case Nil
  then show ?case by simp
next
  case (Cons u us)
  show ?case
  proof (cases "u_rowNumber u \<in> set (map rowNumber rows)")
    case True
    let ?p = "pending(u_rowNumber u \<mapsto> (u_status u, u_reason u))"
    have "snd (queue_updates rows (u # us) pending) = u_rowNumber u # snd (queue_updates rows us ?p)"
      using True by (simp split: prod.splits)
    then show ?thesis using True Cons.IH[of ?p] by simp
  next
    case False
    then show ?thesis using Cons.IH[of pending] by simp
  qed
qed

text \<open>
  C6 (as amended). The updates whose row exists are queued in order and saved one by
  one. When the save number \<open>k\<close> (from 0) is the first that throws, the batch update
  stops there: the rows queued before it have been saved, the \<open>save\<close> of exactly the
  first \<open>k + 1\<close> queued rows was called and that of no later row, and the error of the
  failing save is rethrown to the caller. No list of failed updates is returned.
\<close>

theorem batch_update_stops_at_first_failure:
  assumes "updates \<noteq> []"
    and "q = map u_rowNumber (filter (\<lambda>u. u_rowNumber u \<in> set (map rowNumber rows)) updates)"
    and "pending = fst (queue_updates rows updates Map.empty)"
    and "k < length q" and "thr k = Some m" and "\<forall>j<k. thr j = None"
  shows "batchUpdateLeadStatuses thr (Fetched rows) store updates =
           (Inl (Error m), foldl (\<lambda>st rn. save_row pending rn st) store (take k q), take (Suc k) q)"
proof -
  have qu: "queue_updates rows updates Map.empty = (pending, q)"
    using assms(2,3) queue_updates_rows[of rows updates Map.empty]
    by (metis prod.collapse)
  have "save_all thr pending store q 0 =
     (Some (Error m), foldl (\<lambda>st rn. save_row pending rn st) store (take k q), take (Suc k) q)"
    by (rule save_all_first_failure) (use assms in auto)
  then show ?thesis using assms(1) qu by (simp add: batchUpdateLeadStatuses_def)
qed

text \<open>
  The theorem at two updates of two rows with the second save throwing: row 2 is saved,
  both saves were called, the error is rethrown.
\<close>

theorem batch_update_stops_at_first_failure_witness:
  "fst (batchUpdateLeadStatuses (\<lambda>k. if k = 1 then Some ''quota exceeded'' else None)
          (Fetched two_rows) two_rows two_updates) = Inl (Error ''quota exceeded'') \<and>
   snd (snd (batchUpdateLeadStatuses (\<lambda>k. if k = 1 then Some ''quota exceeded'' else None)
          (Fetched two_rows) two_rows two_updates)) = [2, 3] \<and>
   map r_filterStatus (fst (snd (batchUpdateLeadStatuses
          (\<lambda>k. if k = 1 then Some ''quota exceeded'' else None)
          (Fetched two_rows) two_rows two_updates))) = [Some ''PASS'', Some ''PENDING'']"
proof -
  let ?thr = "\<lambda>k::nat. if k = 1 then Some ''quota exceeded'' else None"
  let ?q = "map u_rowNumber (filter (\<lambda>u. u_rowNumber u \<in> set (map rowNumber two_rows)) two_updates)"
  have q: "?q = [2, 3]"
    by (simp add: two_rows_def two_updates_def new_row_def)
  have ne: "two_updates \<noteq> []" by (simp add: two_updates_def)
  have k: "1 < length ?q" by (subst q) simp
  have t: "?thr 1 = Some ''quota exceeded''" by simp
  have b: "\<forall>j<1. ?thr j = None" by simp
  have p: "fst (queue_updates two_rows two_updates Map.empty) 2 = Some (''PASS'', ''ok'')"
    by (simp add: two_rows_def two_updates_def new_row_def)
  have s: "map r_filterStatus (save_row (fst (queue_updates two_rows two_updates Map.empty)) 2 two_rows)
            = [Some ''PASS'', Some ''PENDING'']"
    by (simp add: save_row_def p) (simp add: two_rows_def new_row_def)
  show ?thesis
    using batch_update_stops_at_first_failure[OF ne refl refl k t b, of two_rows] q s
    by simp
qed

text \<open>
  The claim as stated fails: when the first of two saves throws, the save of the second
  row is never called, row 3 stays \<open>PENDING\<close>, and the caller gets the exception.
\<close>

theorem batch_update_counterexample:
  "fst (batchUpdateLeadStatuses (\<lambda>k. if k = 0 then Some ''quota exceeded'' else None)
          (Fetched two_rows) two_rows two_updates) = Inl (Error ''quota exceeded'') \<and>
   snd (snd (batchUpdateLeadStatuses (\<lambda>k. if k = 0 then Some ''quota exceeded'' else None)
          (Fetched two_rows) two_rows two_updates)) = [2] \<and>
   map r_filterStatus (fst (snd (batchUpdateLeadStatuses
          (\<lambda>k. if k = 0 then Some ''quota exceeded'' else None)
          (Fetched two_rows) two_rows two_updates))) = [Some ''PENDING'', Some ''PENDING'']"
  by (simp add: batchUpdateLeadStatuses_def two_rows_def two_updates_def new_row_def)

lemma written_truthy: "truthy (sl_username l) \<Longrightarrow> written_username l = sl_username l"
  by (auto simp: truthy_def written_username_def js_or_def split: option.splits)

lemma appendLeads_ok_usernames:
  assumes "appendLeads env rows leads = (Inr (), rows', ds)"
  shows "map r_username rows' = map r_username rows @ map written_username leads"
proof (cases "leads = []")
  case True
  with assms show ?thesis by (simp add: appendLeads_def)
next
  case False
  obtain e r where ar: "add_rows (addRow_throws env) rows leads 0 = (e, r)"
    by (cases "add_rows (addRow_throws env) rows leads 0")
  with assms False have "e = None \<and> r = rows'"
    by (auto simp: appendLeads_def split: option.splits prod.splits bool.splits)
  with add_rows_usernames[OF ar] show ?thesis by auto
qed

lemma second_scrape_appends_nothing:
  assumes r1: "usernames_read env rows = Fetched rows"
    and r2: "usernames_read env rows1 = Fetched rows1"
    and tr: "list_all (\<lambda>l. truthy (sl_username l)) (scrape_keywords (scrapeByKeyword env) 0 keywords)"
    and first: "scrapingPhase env keywords rows = (Inr (), rows1, batch)"
  shows "scrapingPhase env keywords rows1 = (Inr (), rows1, [])"
proof -
  let ?new = "scrape_keywords (scrapeByKeyword env) 0 keywords"
  let ?b = "filter (\<lambda>l. sl_username l \<notin> set (getAllUsernames (usernames_read env rows))) ?new"
  have us: "map r_username rows1 = map r_username rows @ map written_username ?b"
  proof (cases "?b = []")
    case True
    with first show ?thesis by (simp add: scrapingPhase_def Let_def)
  next
    case False
    with first obtain ds where "appendLeads (append_env env) rows ?b = (Inr (), rows1, ds)"
      by (auto simp: scrapingPhase_def Let_def split: prod.splits)
    then show ?thesis by (rule appendLeads_ok_usernames)
  qed
  have "\<And>l. l \<in> set ?new \<Longrightarrow> sl_username l \<in> set (getAllUsernames (usernames_read env rows1))"
  proof -
    fix l assume l: "l \<in> set ?new"
    then have t: "truthy (sl_username l)" using tr by (simp add: list_all_iff)
    have "sl_username l \<in> set (map r_username rows1)"
    proof (cases "sl_username l \<in> set (getAllUsernames (usernames_read env rows))")
      case True
      then show ?thesis using r1 us by (auto simp: getAllUsernames_def)
    next
      case False
      then have "l \<in> set ?b" using l by simp
      then have "written_username l \<in> set (map r_username rows1)" unfolding us by simp
      then show ?thesis using t by (simp add: written_truthy)
    qed
    then show "sl_username l \<in> set (getAllUsernames (usernames_read env rows1))"
      using r2 t by (simp add: getAllUsernames_def)
  qed
  then have "filter (\<lambda>l. sl_username l \<notin> set (getAllUsernames (usernames_read env rows1))) ?new = []"
    by (auto simp: filter_empty_conv)
  then show ?thesis by (simp add: scrapingPhase_def Let_def)
qed

text \<open>
  C7 (as amended). \<open>appendLeads\<close> adds one row for every lead of the batch at every call:
  when no \<open>addRow\<close> throws, two calls with the same batch leave the sheet with the
  usernames it had, followed by those of the batch twice. A retry is free of duplicates
  when it goes through the scraping phase: if the phase has run without error, its
  scrape results all have non-empty usernames and the reads of the existing usernames
  return the rows of the sheet, then running it again with the same scrape results
  appends nothing and leaves the sheet as it is.
\<close>

theorem retry_duplicates_unless_deduplicated:
  "((\<forall>j. addRow_throws env1 j = None) \<and> (\<forall>j. addRow_throws env2 j = None) \<longrightarrow>
      map r_username (fst (snd (appendLeads env2 (fst (snd (appendLeads env1 rows leads))) leads))) =
        map r_username rows @ map written_username leads @ map written_username leads) \<and>
   (usernames_read env rows = Fetched rows \<and> usernames_read env rows1 = Fetched rows1 \<and>
    list_all (\<lambda>l. truthy (sl_username l)) (scrape_keywords (scrapeByKeyword env) 0 keywords) \<and>
    scrapingPhase env keywords rows = (Inr (), rows1, batch) \<longrightarrow>
      scrapingPhase env keywords rows1 = (Inr (), rows1, []))"
proof (intro conjI impI)
  assume a: "(\<forall>j. addRow_throws env1 j = None) \<and> (\<forall>j. addRow_throws env2 j = None)"
  then show "map r_username (fst (snd (appendLeads env2 (fst (snd (appendLeads env1 rows leads))) leads))) =
        map r_username rows @ map written_username leads @ map written_username leads"
    by (simp add: appendLeads_usernames)
next
  assume "usernames_read env rows = Fetched rows \<and> usernames_read env rows1 = Fetched rows1 \<and>
    list_all (\<lambda>l. truthy (sl_username l)) (scrape_keywords (scrapeByKeyword env) 0 keywords) \<and>
    scrapingPhase env keywords rows = (Inr (), rows1, batch)"
  then show "scrapingPhase env keywords rows1 = (Inr (), rows1, [])"
    using second_scrape_appends_nothing[of env rows rows1 "keywords" batch] by blast
qed

text \<open>
  The theorem on the reliable store: alice appended twice has two rows; the scraping
  phase run twice on an empty sheet appends alice and bob once.
\<close>

theorem retry_duplicates_unless_deduplicated_witness:
  "map r_username (fst (snd (appendLeads reliable_store
       (fst (snd (appendLeads reliable_store [] [alice]))) [alice]))) =
     [Some ''alice'', Some ''alice''] \<and>
   scrapingPhase scrape_ok [''tips''] two_rows = (Inr (), two_rows, [])"
proof -
  have t: "(\<forall>j. addRow_throws reliable_store j = None) \<and> (\<forall>j. addRow_throws reliable_store j = None)"
    by (simp add: reliable_store_def)
  have w: "map written_username [alice] = [Some ''alice'']"
    by (simp add: written_username_def alice_def js_or_def)
  have r: "usernames_read scrape_ok [] = Fetched []" "usernames_read scrape_ok two_rows = Fetched two_rows"
    by (simp_all add: scrape_ok_def)
  have tr: "list_all (\<lambda>l. truthy (sl_username l)) (scrape_keywords (scrapeByKeyword scrape_ok) 0 [''tips''])"
    by (simp add: scrape_ok_def truthy_def alice_def bob_def)
  have first: "scrapingPhase scrape_ok [''tips''] [] = (Inr (), two_rows, [alice, bob])"
    by (simp add: scrapingPhase_def scrape_ok_def getAllUsernames_def appendLeads_def
        reliable_store_def maxRetries_def unverifiedLeads_def two_rows_def new_row_def
        alice_def bob_def js_or_def Let_def eval_nat_numeral)
  show ?thesis
    using retry_duplicates_unless_deduplicated[of reliable_store reliable_store "[]" "[alice]"
        scrape_ok two_rows "[''tips'']" "[alice, bob]"] t w r tr first
    by simp
qed

text \<open>
  The claim as stated fails: on the reliable store both calls succeed, and after the
  second the sheet holds two rows for alice.
\<close>

theorem append_twice_counterexample:
  "fst (appendLeads reliable_store [] [alice]) = Inr () \<and>
   fst (appendLeads reliable_store (fst (snd (appendLeads reliable_store [] [alice]))) [alice]) = Inr () \<and>
   count_username ''alice''
     (fst (snd (appendLeads reliable_store (fst (snd (appendLeads reliable_store [] [alice]))) [alice]))) = 2"
  by (simp add: appendLeads_def reliable_store_def maxRetries_def unverifiedLeads_def
      count_username_def new_row_def alice_def js_or_def eval_nat_numeral)

section \<open>The scheduler and the engagement phase\<close>

lemma compare_le: "(compare_activities a b \<le> 0) = plan_order a b"
  by (auto simp: compare_activities_def plan_order_def)

lemma plan_order_trans: "plan_order a b \<Longrightarrow> plan_order b c \<Longrightarrow> plan_order a c"
  by (auto simp: plan_order_def)

lemma plan_order_total: "\<not> plan_order a b \<Longrightarrow> plan_order b a"
  by (auto simp: plan_order_def)

lemma mset_insert_sorted: "mset (insert_sorted cmp x xs) = add_mset x (mset xs)"
  by (induction xs) auto

lemma mset_js_sort: "mset (js_sort cmp xs) = mset xs"
  by (induction xs) (auto simp: js_sort_def mset_insert_sorted)

lemma set_insert_sorted: "set (insert_sorted cmp x xs) = insert x (set xs)"
  by (induction xs) auto

lemma sorted_insert_sorted:
  "sorted_wrt plan_order xs \<Longrightarrow> sorted_wrt plan_order (insert_sorted compare_activities x xs)"
proof (induction xs)
  case Nil
  then show ?case by simp
next
  case (Cons y ys)
  show ?case
  proof (cases "compare_activities x y \<le> 0")
    case True
    then have xy: "plan_order x y" by (simp add: compare_le)
    have "\<forall>z\<in>set ys. plan_order x z"
      using Cons.prems xy plan_order_trans by auto
    with True xy Cons.prems show ?thesis by simp
  next
    case False
    then have yx: "plan_order y x" using plan_order_total by (simp add: compare_le)
    have "sorted_wrt plan_order (insert_sorted compare_activities x ys)"
      using Cons by simp
    with False yx Cons.prems show ?thesis by (auto simp: set_insert_sorted)
  qed
qed

lemma sorted_js_sort: "sorted_wrt plan_order (js_sort compare_activities xs)"
  by (induction xs) (auto simp: js_sort_def sorted_insert_sorted)

lemma dm_loop_kind:
  "a \<in> set (fst (dm_loop env rem cnt pos leads)) \<Longrightarrow> is_dm a \<and> a_priority a = 1"
proof (induction leads arbitrary: cnt pos)
  case Nil
  then show ?case by simp
next
  case (Cons l ls)
  then show ?case
    by (auto simp: is_dm_def split: if_splits prod.splits) (metis fst_conv)+
qed

lemma step_kinds:
  "a \<in> set (fst (like_step env rl n l st)) \<Longrightarrow> \<not> is_dm a \<and> 1 < a_priority a"
  "a \<in> set (fst (retweet_step env rr l st)) \<Longrightarrow> \<not> is_dm a \<and> 1 < a_priority a"
  "a \<in> set (fst (comment_step env rc l st)) \<Longrightarrow> \<not> is_dm a \<and> 1 < a_priority a"
  by (auto simp: like_step_def retweet_step_def comment_step_def is_dm_def split: prod.splits if_splits)

lemma engage_loop_kind:
  "a \<in> set (fst (engage_loop env rl rr rc n st leads)) \<Longrightarrow> \<not> is_dm a \<and> 1 < a_priority a"
proof (induction leads arbitrary: st)
  case Nil
  then show ?case by simp
next
  case (Cons l ls)
  show ?case
  proof (cases "l_username l = []")
    case True
    then show ?thesis using Cons by simp
  next
    case False
    obtain a1 st1 where s1: "like_step env rl n l st = (a1, st1)" by (cases "like_step env rl n l st")
    obtain a2 st2 where s2: "retweet_step env rr l st1 = (a2, st2)" by (cases "retweet_step env rr l st1")
    obtain a3 st3 where s3: "comment_step env rc l st2 = (a3, st3)" by (cases "comment_step env rc l st2")
    obtain r st4 where s4: "engage_loop env rl rr rc n st3 ls = (r, st4)" by (cases "engage_loop env rl rr rc n st3 ls")
    from Cons.prems False s1 s2 s3 s4 have "a \<in> set a1 \<or> a \<in> set a2 \<or> a \<in> set a3 \<or> a \<in> set r"
      by auto
    then show ?thesis
      using step_kinds(1)[of a env rl n l st] step_kinds(2)[of a env rr l st1]
        step_kinds(3)[of a env rc l st2] Cons.IH[of st3] s1 s2 s3 s4 by auto
  qed
qed

lemma dm_loop_fst_Cons:
  "fst (dm_loop env rem cnt pos (l # ls)) =
     (if cnt \<ge> rem then []
      else if l_username l = [] then fst (dm_loop env rem cnt pos ls)
      else \<lparr>a_type = ''dm'', a_leadId = l_id l, a_username = l_username l,
             a_message = Some (messageFor env (random env pos) l),
             a_postUrl = None, a_comment = None,
             a_scheduledTime = timeFor env (random env (pos + 1)),
             a_priority = 1\<rparr> # fst (dm_loop env rem (cnt + 1) (pos + 2) ls))"
  by (simp split: prod.splits)

lemma dm_loop_targets:
  "map (\<lambda>a. (a_leadId a, a_username a)) (fst (dm_loop env rem cnt pos leads)) =
   map (\<lambda>l. (l_id l, l_username l)) (take (nat (rem - cnt)) (filter has_username leads))"
proof (induction leads arbitrary: cnt pos)
  case Nil
  then show ?case by simp
next
  case (Cons l ls)
  show ?case
  proof (cases "cnt \<ge> rem")
    case True
    then show ?thesis by simp
  next
    case False
    then have n: "nat (rem - cnt) = Suc (nat (rem - (cnt + 1)))" by simp
    show ?thesis
    proof (cases "l_username l = []")
      case True
      then show ?thesis using False Cons.IH[of cnt pos]
        by (simp add: has_username_def dm_loop_fst_Cons del: dm_loop.simps)
    next
      case nonempty: False
      then show ?thesis using False Cons.IH[of "cnt + 1" "pos + 2"] n
        by (simp add: has_username_def dm_loop_fst_Cons del: dm_loop.simps)
    qed
  qed
qed

lemma dm_loop_length:
  "length (fst (dm_loop env rem cnt pos leads)) =
   min (nat (rem - cnt)) (length (filter has_username leads))"
proof -
  have "length (fst (dm_loop env rem cnt pos leads)) =
        length (map (\<lambda>a. (a_leadId a, a_username a)) (fst (dm_loop env rem cnt pos leads)))"
    by simp
  also have "\<dots> = length (take (nat (rem - cnt)) (filter has_username leads))"
    unfolding dm_loop_targets by simp
  finally show ?thesis by (simp add: min.commute)
qed

lemma count_type_append: "count_type t (xs @ ys) = count_type t xs + count_type t ys"
  by (simp add: count_type_def)

lemma like_step_counts:
  assumes "like_step env rl n l (cnt, pos) = (acts, cnt', pos')"
  shows "likeCount cnt' = likeCount cnt + int (count_type ''like'' acts) \<and>
         retweetCount cnt' = retweetCount cnt \<and> commentCount cnt' = commentCount cnt \<and>
         count_type ''retweet'' acts = 0 \<and> count_type ''comment'' acts = 0 \<and>
         (likeCount cnt \<le> rl \<longrightarrow> likeCount cnt' \<le> rl)"
  using assms by (auto simp: like_step_def count_type_def split: if_splits)

lemma retweet_step_counts:
  assumes "retweet_step env rr l (cnt, pos) = (acts, cnt', pos')"
  shows "retweetCount cnt' = retweetCount cnt + int (count_type ''retweet'' acts) \<and>
         likeCount cnt' = likeCount cnt \<and> commentCount cnt' = commentCount cnt \<and>
         count_type ''like'' acts = 0 \<and> count_type ''comment'' acts = 0 \<and>
         (retweetCount cnt \<le> rr \<longrightarrow> retweetCount cnt' \<le> rr)"
  using assms by (auto simp: retweet_step_def count_type_def split: if_splits)

lemma comment_step_counts:
  assumes "comment_step env rc l (cnt, pos) = (acts, cnt', pos')"
  shows "commentCount cnt' = commentCount cnt + int (count_type ''comment'' acts) \<and>
         likeCount cnt' = likeCount cnt \<and> retweetCount cnt' = retweetCount cnt \<and>
         count_type ''like'' acts = 0 \<and> count_type ''retweet'' acts = 0 \<and>
         (commentCount cnt \<le> rc \<longrightarrow> commentCount cnt' \<le> rc)"
  using assms by (auto simp: comment_step_def count_type_def split: if_splits)

lemma engage_loop_counts:
  "engage_loop env rl rr rc n (cnt, pos) leads = (acts, cnt', pos') \<Longrightarrow>
   likeCount cnt \<le> rl \<Longrightarrow> retweetCount cnt \<le> rr \<Longrightarrow> commentCount cnt \<le> rc \<Longrightarrow>
   likeCount cnt + int (count_type ''like'' acts) \<le> rl \<and>
   retweetCount cnt + int (count_type ''retweet'' acts) \<le> rr \<and>
   commentCount cnt + int (count_type ''comment'' acts) \<le> rc"
proof (induction leads arbitrary: cnt pos acts cnt' pos')
  case Nil
  then show ?case by (simp add: count_type_def)
next
  case (Cons l ls)
  show ?case
  proof (cases "l_username l = []")
    case True
    then show ?thesis using Cons.prems Cons.IH[of cnt pos acts] by simp
  next
    case False
    obtain a1 c1 p1 where s1: "like_step env rl n l (cnt, pos) = (a1, c1, p1)"
      by (metis prod_cases3)
    obtain a2 c2 p2 where s2: "retweet_step env rr l (c1, p1) = (a2, c2, p2)"
      by (metis prod_cases3)
    obtain a3 c3 p3 where s3: "comment_step env rc l (c2, p2) = (a3, c3, p3)"
      by (metis prod_cases3)
    obtain r c4 p4 where s4: "engage_loop env rl rr rc n (c3, p3) ls = (r, c4, p4)"
      by (metis prod_cases3)
    have acts: "acts = a1 @ a2 @ a3 @ r"
      using Cons.prems(1) False s1 s2 s3 s4 by simp
    note k1 = like_step_counts[OF s1] and k2 = retweet_step_counts[OF s2]
      and k3 = comment_step_counts[OF s3]
    have b: "likeCount c3 \<le> rl" "retweetCount c3 \<le> rr" "commentCount c3 \<le> rc"
      using k1 k2 k3 Cons.prems(2,3,4) by auto
    note ih = Cons.IH[OF s4 b(1) b(2) b(3)]
    show ?thesis
      unfolding acts count_type_append using k1 k2 k3 ih by simp
  qed
qed

lemma count_type_dm_loop:
  "count_type t (fst (dm_loop env rem cnt pos leads)) =
     (if t = ''dm'' then length (fst (dm_loop env rem cnt pos leads)) else 0)"
proof -
  have all: "\<And>a. a \<in> set (fst (dm_loop env rem cnt pos leads)) \<Longrightarrow> a_type a = ''dm''"
    using dm_loop_kind[of _ env rem cnt pos leads] by (simp add: is_dm_def)
  show ?thesis
  proof (cases "t = ''dm''")
    case True
    then show ?thesis using all by (simp add: count_type_def)
  next
    case False
    then have "filter (\<lambda>a. a_type a = t) (fst (dm_loop env rem cnt pos leads)) = []"
      using all by (auto simp: filter_empty_conv)
    then show ?thesis using False by (simp add: count_type_def)
  qed
qed

lemma createDailyPlan_empty: "createDailyPlan env sch [] m = ([], sch)"
  by (simp add: createDailyPlan_def)

lemma createDailyPlan_sorted_parts:
  assumes "leads \<noteq> []"
  shows "fst (createDailyPlan env sch leads None) =
     js_sort compare_activities
       (fst (dm_loop env (remaining (dmPerDay (limits (resetDailyCountersIfNeeded (today env) sch)))
                                   (c_dm (counters (resetDailyCountersIfNeeded (today env) sch)))) 0 0 leads) @
        fst (engage_loop env
              (remaining (likesPerDay (limits (resetDailyCountersIfNeeded (today env) sch)))
                         (c_likes (counters (resetDailyCountersIfNeeded (today env) sch))))
              (remaining (retweetsPerDay (limits (resetDailyCountersIfNeeded (today env) sch)))
                         (c_retweets (counters (resetDailyCountersIfNeeded (today env) sch))))
              (remaining (commentsPerDay (limits (resetDailyCountersIfNeeded (today env) sch)))
                         (c_comments (counters (resetDailyCountersIfNeeded (today env) sch))))
              (int (length leads))
              (\<lparr>likeCount = 0, retweetCount = 0, commentCount = 0\<rparr>,
               snd (snd (dm_loop env (remaining (dmPerDay (limits (resetDailyCountersIfNeeded (today env) sch)))
                                   (c_dm (counters (resetDailyCountersIfNeeded (today env) sch)))) 0 0 leads)))
              leads))"
  using assms by (simp add: createDailyPlan_def Let_def split: prod.splits)

lemma createDailyPlan_scheduler:
  "snd (createDailyPlan env sch leads m) =
     (if leads = [] then sch else resetDailyCountersIfNeeded (today env) sch)"
  by (simp add: createDailyPlan_def Let_def split: prod.splits)

lemma filter_dm_parts:
  assumes "\<And>a. a \<in> set dms \<Longrightarrow> is_dm a" and "\<And>a. a \<in> set others \<Longrightarrow> \<not> is_dm a"
  shows "mset (filter is_dm (js_sort compare_activities (dms @ others))) = mset dms"
proof -
  have "mset (filter is_dm (js_sort compare_activities (dms @ others))) =
        filter_mset is_dm (mset (js_sort compare_activities (dms @ others)))" by simp
  also have "\<dots> = filter_mset is_dm (mset dms) + filter_mset is_dm (mset others)"
    by (simp add: mset_js_sort)
  also have "filter_mset is_dm (mset dms) = mset dms"
    using assms(1) by (simp add: filter_mset_eq_conv)
  also have "filter_mset is_dm (mset others) = {#}"
    using assms(2) by (auto simp: filter_mset_eq_mempty_iff)
  finally show ?thesis by simp
qed

text \<open>
  C8. With a remaining quota of 2 direct messages (after the daily reset check) and the
  three ready leads A, B, C, each with a handle, the plan holds exactly 2 dm activities;
  they target A and B, the first two leads in ready order; every dm activity has a
  strictly lower priority rank than every activity of another kind; and the plan is
  sorted by priority rank ascending, then by scheduled time ascending.
\<close>

theorem dm_scenario:
  assumes "remaining (dmPerDay (limits (resetDailyCountersIfNeeded (today env) sch)))
                     (c_dm (counters (resetDailyCountersIfNeeded (today env) sch))) = 2"
    and "has_username A" and "has_username B" and "has_username C"
  shows "count_type ''dm'' (fst (createDailyPlan env sch [A, B, C] None)) = 2 \<and>
         mset (map (\<lambda>a. (a_leadId a, a_username a))
                (filter is_dm (fst (createDailyPlan env sch [A, B, C] None)))) =
           {#(l_id A, l_username A), (l_id B, l_username B)#} \<and>
         (\<forall>a\<in>set (fst (createDailyPlan env sch [A, B, C] None)).
            \<forall>b\<in>set (fst (createDailyPlan env sch [A, B, C] None)).
              is_dm a \<and> \<not> is_dm b \<longrightarrow> a_priority a < a_priority b) \<and>
         sorted_wrt plan_order (fst (createDailyPlan env sch [A, B, C] None))"
proof -
  let ?sch = "resetDailyCountersIfNeeded (today env) sch"
  let ?dms = "fst (dm_loop env 2 0 0 [A, B, C])"
  let ?others = "fst (engage_loop env
              (remaining (likesPerDay (limits ?sch)) (c_likes (counters ?sch)))
              (remaining (retweetsPerDay (limits ?sch)) (c_retweets (counters ?sch)))
              (remaining (commentsPerDay (limits ?sch)) (c_comments (counters ?sch)))
              (int (length [A, B, C]))
              (\<lparr>likeCount = 0, retweetCount = 0, commentCount = 0\<rparr>,
               snd (snd (dm_loop env 2 0 0 [A, B, C])))
              [A, B, C])"
  let ?plan = "fst (createDailyPlan env sch [A, B, C] None)"
  have plan: "?plan = js_sort compare_activities (?dms @ ?others)"
    using createDailyPlan_sorted_parts[of "[A, B, C]" env sch] assms(1) by simp
  have d: "\<And>a. a \<in> set ?dms \<Longrightarrow> is_dm a \<and> a_priority a = 1"
    by (rule dm_loop_kind)
  have o: "\<And>a. a \<in> set ?others \<Longrightarrow> \<not> is_dm a \<and> 1 < a_priority a"
    by (rule engage_loop_kind)
  have m: "mset (filter is_dm ?plan) = mset ?dms"
    unfolding plan using d o by (intro filter_dm_parts) auto
  have t: "map (\<lambda>a. (a_leadId a, a_username a)) ?dms = [(l_id A, l_username A), (l_id B, l_username B)]"
    using assms(2,3,4) by (simp add: dm_loop_targets has_username_def)
  have "mset (map (\<lambda>a. (a_leadId a, a_username a)) (filter is_dm ?plan)) =
        image_mset (\<lambda>a. (a_leadId a, a_username a)) (mset (filter is_dm ?plan))" by simp
  also have "\<dots> = mset (map (\<lambda>a. (a_leadId a, a_username a)) ?dms)"
    unfolding m by simp
  finally have targets: "mset (map (\<lambda>a. (a_leadId a, a_username a)) (filter is_dm ?plan)) =
        {#(l_id A, l_username A), (l_id B, l_username B)#}"
    unfolding t by simp
  have "is_dm = (\<lambda>a. a_type a = ''dm'')" by (simp add: is_dm_def fun_eq_iff)
  then have "count_type ''dm'' ?plan = length (filter is_dm ?plan)"
    by (simp add: count_type_def)
  also have "\<dots> = size (mset (filter is_dm ?plan))"
    by (simp only: size_mset)
  also have "\<dots> = length (map (\<lambda>a. (a_leadId a, a_username a)) ?dms)"
    unfolding m by simp
  finally have cnt: "count_type ''dm'' ?plan = 2" unfolding t by simp
  have s: "set ?plan = set ?dms \<union> set ?others"
    unfolding plan using mset_js_sort[of compare_activities "?dms @ ?others"]
    by (metis set_append set_mset_mset)
  have pri: "\<forall>a\<in>set ?plan. \<forall>b\<in>set ?plan. is_dm a \<and> \<not> is_dm b \<longrightarrow> a_priority a < a_priority b"
    unfolding s using d o by fastforce
  have srt: "sorted_wrt plan_order ?plan"
    unfolding plan by (rule sorted_js_sort)
  show ?thesis using cnt targets pri srt by blast
qed

text \<open>
  The scenario at a scheduler configured with 2 direct messages per day and three leads
  with the handle \<open>fan\<close> in rows 2, 3 and 4.
\<close>

theorem dm_scenario_witness:
  "count_type ''dm'' (fst (createDailyPlan calm_env
       (new_scheduler (config_rateLimits\<lparr>cfg_dmPerDay := Some 2\<rparr>) ''Mon Nov 02 2026'')
       [fan 2, fan 3, fan 4] None)) = 2 \<and>
   mset (map (\<lambda>a. (a_leadId a, a_username a))
          (filter is_dm (fst (createDailyPlan calm_env
             (new_scheduler (config_rateLimits\<lparr>cfg_dmPerDay := Some 2\<rparr>) ''Mon Nov 02 2026'')
             [fan 2, fan 3, fan 4] None)))) = {#(2, ''fan''), (3, ''fan'')#} \<and>
   sorted_wrt plan_order (fst (createDailyPlan calm_env
       (new_scheduler (config_rateLimits\<lparr>cfg_dmPerDay := Some 2\<rparr>) ''Mon Nov 02 2026'')
       [fan 2, fan 3, fan 4] None))"
proof -
  let ?sch = "new_scheduler (config_rateLimits\<lparr>cfg_dmPerDay := Some 2\<rparr>) ''Mon Nov 02 2026''"
  have q: "remaining (dmPerDay (limits (resetDailyCountersIfNeeded (today calm_env) ?sch)))
                     (c_dm (counters (resetDailyCountersIfNeeded (today calm_env) ?sch))) = 2"
    by (simp add: resetDailyCountersIfNeeded_def calm_env_def new_scheduler_def
        config_rateLimits_def or_default_def remaining_def)
  have h: "has_username (fan 2)" "has_username (fan 3)" "has_username (fan 4)"
    by (simp_all add: has_username_def fan_def)
  show ?thesis
    using dm_scenario[OF q h] by (simp add: fan_def)
qed

lemma count_type_take: "count_type t (take k xs) \<le> count_type t xs"
proof -
  have "count_type t xs = count_type t (take k xs) + count_type t (drop k xs)"
    by (metis append_take_drop_id count_type_append)
  then show ?thesis by simp
qed

lemma count_type_slice0: "count_type t (slice0 m xs) \<le> count_type t xs"
  by (simp add: slice0_def count_type_take)

lemma count_type_js_sort: "count_type t (js_sort cmp xs) = count_type t xs"
proof -
  have "count_type t (js_sort cmp xs) = size (filter_mset (\<lambda>a. a_type a = t) (mset (js_sort cmp xs)))"
    by (simp add: count_type_def flip: mset_filter)
  also have "\<dots> = count_type t xs"
    by (simp add: mset_js_sort count_type_def flip: mset_filter)
  finally show ?thesis .
qed

lemma remaining_nonneg: "0 \<le> remaining l u"
  by (simp add: remaining_def)

lemma engage_loop_kind_count: "count_type ''dm'' (fst (engage_loop env rl rr rc n st leads)) = 0"
  using engage_loop_kind[of _ env rl rr rc n st leads]
  by (auto simp: count_type_def is_dm_def filter_empty_conv)

lemma plan_counts_unsliced:
  assumes "leads \<noteq> []"
  shows "int (count_type ''dm'' (fst (createDailyPlan env sch leads None))) =
           min (remaining (dmPerDay (limits (resetDailyCountersIfNeeded (today env) sch)))
                          (c_dm (counters (resetDailyCountersIfNeeded (today env) sch))))
               (int (length (filter has_username leads))) \<and>
         int (count_type ''like'' (fst (createDailyPlan env sch leads None))) \<le>
           remaining (likesPerDay (limits (resetDailyCountersIfNeeded (today env) sch)))
                     (c_likes (counters (resetDailyCountersIfNeeded (today env) sch))) \<and>
         int (count_type ''retweet'' (fst (createDailyPlan env sch leads None))) \<le>
           remaining (retweetsPerDay (limits (resetDailyCountersIfNeeded (today env) sch)))
                     (c_retweets (counters (resetDailyCountersIfNeeded (today env) sch))) \<and>
         int (count_type ''comment'' (fst (createDailyPlan env sch leads None))) \<le>
           remaining (commentsPerDay (limits (resetDailyCountersIfNeeded (today env) sch)))
                     (c_comments (counters (resetDailyCountersIfNeeded (today env) sch)))"
proof -
  let ?sch = "resetDailyCountersIfNeeded (today env) sch"
  let ?rd = "remaining (dmPerDay (limits ?sch)) (c_dm (counters ?sch))"
  let ?rl = "remaining (likesPerDay (limits ?sch)) (c_likes (counters ?sch))"
  let ?rr = "remaining (retweetsPerDay (limits ?sch)) (c_retweets (counters ?sch))"
  let ?rc = "remaining (commentsPerDay (limits ?sch)) (c_comments (counters ?sch))"
  let ?dms = "fst (dm_loop env ?rd 0 0 leads)"
  let ?st = "(\<lparr>likeCount = 0, retweetCount = 0, commentCount = 0\<rparr>, snd (snd (dm_loop env ?rd 0 0 leads)))"
  let ?others = "fst (engage_loop env ?rl ?rr ?rc (int (length leads)) ?st leads)"
  have plan: "fst (createDailyPlan env sch leads None) = js_sort compare_activities (?dms @ ?others)"
    using createDailyPlan_sorted_parts[OF assms] by simp
  obtain acts cnt' pos' where el: "engage_loop env ?rl ?rr ?rc (int (length leads)) ?st leads = (acts, cnt', pos')"
    by (metis prod_cases3)
  have b: "int (count_type ''like'' ?others) \<le> ?rl \<and> int (count_type ''retweet'' ?others) \<le> ?rr \<and>
           int (count_type ''comment'' ?others) \<le> ?rc"
    using engage_loop_counts[OF el] remaining_nonneg el by simp
  have dm: "int (count_type ''dm'' ?dms) = min ?rd (int (length (filter has_username leads)))"
    using remaining_nonneg[of "dmPerDay (limits ?sch)" "c_dm (counters ?sch)"]
    by (simp add: count_type_dm_loop dm_loop_length)
  show ?thesis
    unfolding plan count_type_js_sort count_type_append
    using b dm by (simp add: count_type_dm_loop engage_loop_kind_count)
qed

lemma createDailyPlan_Some:
  "fst (createDailyPlan env sch leads (Some k)) =
     (if k = 0 then fst (createDailyPlan env sch leads None)
      else slice0 k (fst (createDailyPlan env sch leads None)))"
  by (simp add: createDailyPlan_def Let_def slice0_def split: prod.splits)

lemma count_type_plan_le:
  "count_type t (fst (createDailyPlan env sch leads m)) \<le>
   count_type t (fst (createDailyPlan env sch leads None))"
  by (cases m) (auto simp: createDailyPlan_Some count_type_slice0)

text \<open>
  C4 (as amended). Every action kind has one rate window, its per-day window: the
  remaining quota used when planning is \<open>max(0, per-day limit - daily counter)\<close> of
  that kind, taken after the daily reset check, and the plan holds no more activities
  of a kind than that. Without \<open>maxActivities\<close> the number of planned direct messages
  is exactly the smaller of that remaining quota and the number of leads with a handle.
\<close>

theorem planned_counts_within_daily_quota:
  "int (count_type ''dm'' (fst (createDailyPlan env sch leads m))) \<le>
     remaining (dmPerDay (limits (resetDailyCountersIfNeeded (today env) sch)))
               (c_dm (counters (resetDailyCountersIfNeeded (today env) sch))) \<and>
   int (count_type ''like'' (fst (createDailyPlan env sch leads m))) \<le>
     remaining (likesPerDay (limits (resetDailyCountersIfNeeded (today env) sch)))
               (c_likes (counters (resetDailyCountersIfNeeded (today env) sch))) \<and>
   int (count_type ''retweet'' (fst (createDailyPlan env sch leads m))) \<le>
     remaining (retweetsPerDay (limits (resetDailyCountersIfNeeded (today env) sch)))
               (c_retweets (counters (resetDailyCountersIfNeeded (today env) sch))) \<and>
   int (count_type ''comment'' (fst (createDailyPlan env sch leads m))) \<le>
     remaining (commentsPerDay (limits (resetDailyCountersIfNeeded (today env) sch)))
               (c_comments (counters (resetDailyCountersIfNeeded (today env) sch))) \<and>
   (m = None \<longrightarrow>
      int (count_type ''dm'' (fst (createDailyPlan env sch leads m))) =
        min (remaining (dmPerDay (limits (resetDailyCountersIfNeeded (today env) sch)))
                       (c_dm (counters (resetDailyCountersIfNeeded (today env) sch))))
            (int (length (filter has_username leads))))"
proof (cases "leads = []")
  case True
  then show ?thesis
    by (simp add: createDailyPlan_empty count_type_def remaining_nonneg)
next
  case False
  note u = plan_counts_unsliced[OF False, of env sch]
  have le: "\<And>t. int (count_type t (fst (createDailyPlan env sch leads m))) \<le>
                 int (count_type t (fst (createDailyPlan env sch leads None)))"
    using count_type_plan_le by simp
  show ?thesis
    using u le[of "''dm''"] le[of "''like''"] le[of "''retweet''"] le[of "''comment''"]
    by auto
qed

text \<open>
  The theorem at three leads with a handle and the configured limits (without
  \<open>maxActivities\<close>): three direct messages, and at most 100 likes.
\<close>

theorem planned_counts_within_daily_quota_witness:
  "int (count_type ''dm'' (fst (createDailyPlan calm_env scheduler0 [fan 2, fan 3, fan 4] None))) = 3 \<and>
   int (count_type ''like'' (fst (createDailyPlan calm_env scheduler0 [fan 2, fan 3, fan 4] None))) \<le> 100"
proof -
  have r: "resetDailyCountersIfNeeded (today calm_env) scheduler0 = scheduler0"
    by (simp add: resetDailyCountersIfNeeded_def calm_env_def scheduler0_def new_scheduler_def)
  have l: "limits scheduler0 = \<lparr>dmPerDay = 30, likesPerDay = 100, retweetsPerDay = 50,
      commentsPerDay = 20, actionsPerHour = 15\<rparr>"
    by (simp add: scheduler0_def new_scheduler_def config_rateLimits_def or_default_def)
  have c: "c_dm (counters scheduler0) = 0" "c_likes (counters scheduler0) = 0"
    by (simp_all add: scheduler0_def new_scheduler_def)
  show ?thesis
    using planned_counts_within_daily_quota[of calm_env scheduler0 "[fan 2, fan 3, fan 4]" None]
    by (simp add: r l c remaining_def has_username_def fan_def)
qed

text \<open>
  The claim as stated fails: with the limits of the configuration (30 direct messages
  per day, 15 actions per hour), no action done yet and 16 ready leads, the plan holds
  16 direct messages, more than \<open>actionsPerHour\<close>.
\<close>

theorem hourly_cap_counterexample:
  "count_type ''dm'' (fst (createDailyPlan calm_env scheduler0 crowd None)) = 16 \<and>
   actionsPerHour (limits scheduler0) = 15"
proof -
  have r: "resetDailyCountersIfNeeded (today calm_env) scheduler0 = scheduler0"
    by (simp add: resetDailyCountersIfNeeded_def calm_env_def scheduler0_def new_scheduler_def)
  have l: "limits scheduler0 = \<lparr>dmPerDay = 30, likesPerDay = 100, retweetsPerDay = 50,
      commentsPerDay = 20, actionsPerHour = 15\<rparr>"
    by (simp add: scheduler0_def new_scheduler_def config_rateLimits_def or_default_def)
  have c: "c_dm (counters scheduler0) = 0"
    by (simp add: scheduler0_def new_scheduler_def)
  have "filter has_username crowd = crowd"
    by (simp add: crowd_def has_username_def fan_def filter_map comp_def)
  then have h: "length (filter has_username crowd) = 16"
    by (simp add: crowd_def)
  have ne: "crowd \<noteq> []" by (simp add: crowd_def)
  have "int (count_type ''dm'' (fst (createDailyPlan calm_env scheduler0 crowd None))) = 16"
    using plan_counts_unsliced[OF ne, of calm_env scheduler0]
    by (simp add: r l c h remaining_def)
  then show ?thesis by (simp add: l)
qed

lemma execute_all_activities: "map fst (fst (execute_all env i acts store)) = acts"
proof (induction acts arbitrary: i store)
  case Nil
  then show ?case by simp
next
  case (Cons a acts)
  obtain r st where e: "executeActivity env i a store = (r, st)"
    by (cases "executeActivity env i a store")
  show ?case
  proof (cases r)
    case (Inl err)
    obtain m where "err = Error m" by (cases err)
    then show ?thesis
      using e Inl Cons.IH[of "Suc i" "logError None (''Engagement error: '' @ m) (rows_read env i) st"]
      by (auto split: prod.splits)
  next
    case (Inr res)
    then show ?thesis using e Cons.IH[of "Suc i" st] by (auto split: prod.splits)
  qed
qed

text \<open>
  The scheduler after an engagement phase is the scheduler before it, but for the daily
  reset: no counter is incremented by the phase.
\<close>

lemma engagement_scheduler_after:
  "scheduler_after (engagementPhase d env sch store) =
     (if getLeadsForEngagement (ready_read env) = [] then sch
      else resetDailyCountersIfNeeded (today (planning env)) sch)"
  by (simp add: engagementPhase_def Let_def createDailyPlan_def split: prod.splits)

lemma leads_six: "getLeadsForEngagement (Fetched six_rows) = map fan [2..<8]"
  by (simp add: getLeadsForEngagement_def six_rows_def ready_row_def fan_def js_or_def
      toUpperCase_def upper_char_def)

lemma plan_six: "length (fst (createDailyPlan calm_env scheduler0 (map fan [2..<8]) None)) = 12"
  by (simp add: createDailyPlan_def resetDailyCountersIfNeeded_def
      calm_env_def scheduler0_def new_scheduler_def config_rateLimits_def or_default_def
      remaining_def like_step_def retweet_step_def comment_step_def retweet_chance_def
      comment_chance_def js_sort_def compare_activities_def postUrlOf_def fan_def Let_def)

text \<open>
  C10. Outside demo mode the engagement phase executes exactly the first
  \<open>activitiesPerCycle\<close> = 10 entries of the plan it has just built from the leads read
  in this phase, each once and in plan order, so at most 10 activities. What the phase
  leaves behind (the sheet and the scheduler) is determined by these entries and by the
  planning alone: the rest of the plan is stored nowhere, and the next phase executes
  the first 10 entries of the plan that it builds itself.
\<close>

theorem at_most_activitiesPerCycle:
  "executed (engagementPhase False env sch store) =
     fst (execute_all env 0
            (take 10 (fst (createDailyPlan (planning env) sch
                             (getLeadsForEngagement (ready_read env)) None))) store) \<and>
   map fst (executed (engagementPhase False env sch store)) =
     take 10 (fst (createDailyPlan (planning env) sch (getLeadsForEngagement (ready_read env)) None)) \<and>
   int (length (executed (engagementPhase False env sch store))) \<le> activitiesPerCycle \<and>
   activitiesPerCycle = 10 \<and>
   store_after (engagementPhase False env sch store) =
     snd (execute_all env 0
            (take 10 (fst (createDailyPlan (planning env) sch
                             (getLeadsForEngagement (ready_read env)) None))) store) \<and>
   scheduler_after (engagementPhase False env sch store) =
     snd (createDailyPlan (planning env) sch (getLeadsForEngagement (ready_read env)) None)"
proof -
  let ?leads = "getLeadsForEngagement (ready_read env)"
  let ?plan = "fst (createDailyPlan (planning env) sch ?leads None)"
  let ?r = "engagementPhase False env sch store"
  have ex: "executed ?r = fst (execute_all env 0 (take 10 ?plan) store)"
    by (auto simp: engagementPhase_def Let_def createDailyPlan_empty slice0_def
        activitiesPerCycle_def split: prod.splits)
  have st: "store_after ?r = snd (execute_all env 0 (take 10 ?plan) store)"
    by (auto simp: engagementPhase_def Let_def createDailyPlan_empty slice0_def
        activitiesPerCycle_def split: prod.splits)
  have sc: "scheduler_after ?r = snd (createDailyPlan (planning env) sch ?leads None)"
    by (simp add: engagement_scheduler_after createDailyPlan_scheduler)
  have mp: "map fst (executed ?r) = take 10 ?plan"
    unfolding ex by (rule execute_all_activities)
  have "length (executed ?r) = length (take 10 ?plan)"
    using mp by (metis length_map)
  then have le: "int (length (executed ?r)) \<le> activitiesPerCycle"
    by (simp add: activitiesPerCycle_def)
  show ?thesis using ex st sc mp le by (simp add: activitiesPerCycle_def)
qed

text \<open>
  Six ready leads give a plan of twelve activities, of which ten are executed.
\<close>

theorem at_most_activitiesPerCycle_witness:
  "length (executed (engagementPhase False (bot_ok six_rows) scheduler0 six_rows)) = 10 \<and>
   length (fst (createDailyPlan calm_env scheduler0 (getLeadsForEngagement (Fetched six_rows)) None)) = 12"
proof -
  let ?e = "bot_ok six_rows"
  let ?r = "engagementPhase False ?e scheduler0 six_rows"
  have p: "planning ?e = calm_env" "ready_read ?e = Fetched six_rows"
    by (simp_all add: bot_ok_def)
  have m: "map fst (executed ?r) =
      take 10 (fst (createDailyPlan (planning ?e) scheduler0
                      (getLeadsForEngagement (ready_read ?e)) None))"
    using at_most_activitiesPerCycle[of ?e scheduler0 six_rows] by blast
  have "length (executed ?r) = length (map fst (executed ?r))" by simp
  also have "\<dots> = length (take 10 (fst (createDailyPlan calm_env scheduler0 (map fan [2..<8]) None)))"
    unfolding m p leads_six ..
  also have "\<dots> = 10" unfolding length_take plan_six by simp
  finally show ?thesis unfolding leads_six plan_six by simp
qed

text \<open>
  C3 (the code against the claim). One ready lead, a bot on which every action succeeds:
  the phase performs a direct message and a like, and the daily counters of the
  scheduler are all still zero afterwards, while \<open>incrementCounter\<close>, which the
  orchestrator never calls, would have counted the direct message.
\<close>

theorem successful_actions_not_recorded:
  "map (\<lambda>e. (a_type (fst e), snd e))
     (executed (engagementPhase False (bot_ok [ready_row 2 ''fan'']) scheduler0 [ready_row 2 ''fan''])) =
     [(''dm'', Inr Performed), (''like'', Inr Performed)] \<and>
   counters (scheduler_after
     (engagementPhase False (bot_ok [ready_row 2 ''fan'']) scheduler0 [ready_row 2 ''fan''])) =
     \<lparr>c_dm = 0, c_likes = 0, c_retweets = 0, c_comments = 0, lastReset = ''Mon Nov 02 2026''\<rparr> \<and>
   c_dm (counters (incrementCounter ''Mon Nov 02 2026'' ''dm'' scheduler0)) = 1"
  by (simp add: engagementPhase_def bot_ok_def getLeadsForEngagement_def ready_row_def js_or_def
      toUpperCase_def upper_char_def createDailyPlan_def resetDailyCountersIfNeeded_def
      calm_env_def scheduler0_def new_scheduler_def config_rateLimits_def or_default_def
      remaining_def like_step_def retweet_step_def comment_step_def retweet_chance_def
      comment_chance_def js_sort_def compare_activities_def postUrlOf_def slice0_def
      activitiesPerCycle_def executeActivity_def markDMSent_def incrementCounter_def
      truthy_def Let_def)

end
